theory Spec2Isabelle
  imports Main "HOL-Library.Sublist"
begin

section \<open>Attendance-code extraction (main.py)\<close>

text \<open>
  A shallow embedding of the extraction pipeline of \<^verbatim>\<open>main.py\<close>: the text-to-code
  recognition of \<^verbatim>\<open>download_and_process_image\<close> (thumbnails) and of the video loop of
  \<^verbatim>\<open>extract_attendance_codes\<close>, the collection of the thread pool's results, and the
  two-phase control flow. The browser, the HTTP client, the HTML parser, the OCR engine and
  the file system are inputs of the model; what they raise is a value of \<open>py_error\<close>.

  Python's \<^verbatim>\<open>str\<close> is modelled by \<open>string\<close>, one \<open>char\<close> per code point, which covers
  the code points below 256.
\<close>

subsection \<open>Characters and string methods\<close>

definition is_upper :: "char \<Rightarrow> bool" where
  \<comment> \<open>the class \<^verbatim>\<open>[A-Z]\<close>\<close>
  "is_upper c = (let n = (of_char c :: nat) in 65 \<le> n \<and> n \<le> 90)"

definition is_lower :: "char \<Rightarrow> bool" where
  \<comment> \<open>the class \<^verbatim>\<open>[a-z]\<close>\<close>
  "is_lower c = (let n = (of_char c :: nat) in 97 \<le> n \<and> n \<le> 122)"

definition is_digit :: "char \<Rightarrow> bool" where
  \<comment> \<open>the class \<^verbatim>\<open>[0-9]\<close>\<close>
  "is_digit c = (let n = (of_char c :: nat) in 48 \<le> n \<and> n \<le> 57)"

definition is_space :: "char \<Rightarrow> bool" where
  \<comment> \<open>\<^verbatim>\<open>str.isspace\<close> on one character, which is also \<^verbatim>\<open>\s\<close> of a \<^verbatim>\<open>str\<close> pattern and
      what \<^verbatim>\<open>str.strip()\<close> removes: TAB to CR, FS to US, SPACE, NEL, NBSP\<close>
  "is_space c = (let n = (of_char c :: nat) in
     (9 \<le> n \<and> n \<le> 13) \<or> (28 \<le> n \<and> n \<le> 32) \<or> n = 133 \<or> n = 160)"

definition is_context :: "char \<Rightarrow> bool" where
  \<comment> \<open>the class \<^verbatim>\<open>[a-zA-Z0-9:/.]\<close> of the two look-arounds\<close>
  "is_context c = (is_lower c \<or> is_upper c \<or> is_digit c
     \<or> c = CHR '':'' \<or> c = CHR ''/'' \<or> c = CHR ''.'')"

definition is_upper_or_space :: "char \<Rightarrow> bool" where
  \<comment> \<open>the class \<^verbatim>\<open>[A-Z\s]\<close>\<close>
  "is_upper_or_space c = (is_upper c \<or> is_space c)"

definition lower_char :: "char \<Rightarrow> char" where
  \<comment> \<open>\<^verbatim>\<open>str.lower\<close> on one character: A to Z, and the capital letters of Latin-1
      (U+00C0 to U+00DE without the multiplication sign U+00D7)\<close>
  "lower_char c = (let n = (of_char c :: nat) in
     if (65 \<le> n \<and> n \<le> 90) \<or> (192 \<le> n \<and> n \<le> 222 \<and> n \<noteq> 215)
     then char_of (n + 32) else c)"

definition lower :: "string \<Rightarrow> string" where
  "lower s = map lower_char s"

definition strip :: "string \<Rightarrow> string" where
  \<comment> \<open>\<^verbatim>\<open>str.strip()\<close>: whitespace removed at both ends\<close>
  "strip s = rev (dropWhile is_space (rev (dropWhile is_space s)))"

definition replace_char :: "char \<Rightarrow> char \<Rightarrow> string \<Rightarrow> string" where
  \<comment> \<open>\<^verbatim>\<open>s.replace(a, b)\<close> for one-character \<open>a\<close> and \<open>b\<close>\<close>
  "replace_char a b s = map (\<lambda>c. if c = a then b else c) s"

fun split_aux :: "string \<Rightarrow> string \<Rightarrow> string \<Rightarrow> string list" where
  "split_aux sep acc [] = [rev acc]"
| "split_aux sep acc (c # cs) =
     (if sep \<noteq> [] \<and> prefix sep (c # cs)
      then rev acc # split_aux sep [] (drop (length sep - 1) cs)
      else split_aux sep (c # acc) cs)"

definition split :: "string \<Rightarrow> string \<Rightarrow> string list" where
  \<comment> \<open>\<^verbatim>\<open>s.split(sep)\<close> for a non-empty separator: the pieces between the occurrences of
      \<open>sep\<close>, found from left to right without overlap\<close>
  "split sep s = split_aux sep [] s"

definition newline :: string where
  "newline = [CHR 0x0A]"

subsection \<open>Regular expressions of the \<^verbatim>\<open>re\<close> module\<close>

text \<open>
  The fragment of the pattern language that the program uses. \<open>rmatch r s i\<close> lists the
  positions at which a match of \<open>r\<close> that starts at position \<open>i\<close> of \<open>s\<close> can end, in
  the order in which the backtracking matcher tries them: the head of the list is the
  match that \<^verbatim>\<open>re\<close> reports. \<open>Star\<close> is the greedy \<^verbatim>\<open>*\<close>; an iteration that consumes
  nothing ends the repetition.
\<close>

datatype regex =
    Eps
  | Cls "char \<Rightarrow> bool"
  | Seq regex regex
  | Alt regex regex
  | Star regex
  | NotBehind "char \<Rightarrow> bool"
  | NotAhead "char \<Rightarrow> bool"
  | Bos
  | Eos

function rmatch :: "regex \<Rightarrow> string \<Rightarrow> nat \<Rightarrow> nat list" where
  "rmatch Eps s i = [i]"
| "rmatch (Cls P) s i = (if i < length s \<and> P (s ! i) then [Suc i] else [])"
| "rmatch (Seq a b) s i = concat (map (rmatch b s) (rmatch a s i))"
| "rmatch (Alt a b) s i = rmatch a s i @ rmatch b s i"
| "rmatch (Star a) s i =
     concat (map (\<lambda>j. if i < j \<and> j \<le> length s then rmatch (Star a) s j else [])
                 (rmatch a s i)) @ [i]"
| "rmatch (NotBehind P) s i = (if 0 < i \<and> i \<le> length s \<and> P (s ! (i - 1)) then [] else [i])"
| "rmatch (NotAhead P) s i = (if i < length s \<and> P (s ! i) then [] else [i])"
| "rmatch Bos s i = (if i = 0 then [i] else [])"
| "rmatch Eos s i =
     (if i = length s \<or> (Suc i = length s \<and> s ! i = CHR 0x0A) then [i] else [])"
  by pat_completeness auto
termination
  by (relation "measures [\<lambda>(r, s, i). size r, \<lambda>(r, s, i). length s - i]") auto

fun at_least :: "nat \<Rightarrow> regex \<Rightarrow> regex" where
  \<comment> \<open>the greedy \<^verbatim>\<open>r{n,}\<close>\<close>
  "at_least 0 r = Star r"
| "at_least (Suc n) r = Seq r (at_least n r)"

fun lit :: "string \<Rightarrow> regex" where
  \<comment> \<open>a pattern of literal characters\<close>
  "lit [] = Eps"
| "lit (c # cs) = Seq (Cls (\<lambda>x. x = c)) (lit cs)"

function finditer :: "regex \<Rightarrow> string \<Rightarrow> nat \<Rightarrow> (nat \<times> nat) list" where
  \<comment> \<open>the spans of the non-overlapping matches from position \<open>i\<close> on, left to right; after
      an empty match the scan moves one character on\<close>
  "finditer r s i =
     (if length s < i then []
      else (case rmatch r s i of
              [] \<Rightarrow> finditer r s (Suc i)
            | e # _ \<Rightarrow> (i, e) # finditer r s (if i < e then e else Suc i)))"
  by pat_completeness auto
termination
  by (relation "measure (\<lambda>(r, s, i). Suc (length s) - i)") auto

text \<open>
  The equations of \<open>Star\<close> and of \<open>finditer\<close> call themselves on their right-hand
  sides; they are unfolded by hand.
\<close>

declare rmatch.simps(5) [simp del]
declare finditer.simps [simp del]

definition substring :: "string \<Rightarrow> nat \<Rightarrow> nat \<Rightarrow> string" where
  \<comment> \<open>the slice \<^verbatim>\<open>s[i:e]\<close>\<close>
  "substring s i e = take (e - i) (drop i s)"

definition findall :: "regex \<Rightarrow> string \<Rightarrow> string list" where
  \<comment> \<open>\<^verbatim>\<open>re.findall\<close> for a pattern without capturing groups: the matched strings\<close>
  "findall r s = map (\<lambda>(i, e). substring s i e) (finditer r s 0)"

definition re_search :: "regex \<Rightarrow> string \<Rightarrow> bool" where
  \<comment> \<open>the truth value of \<^verbatim>\<open>re.search(r, s)\<close>: a match starts somewhere\<close>
  "re_search r s = list_ex (\<lambda>i. rmatch r s i \<noteq> []) [0..<Suc (length s)]"

definition re_match :: "regex \<Rightarrow> string \<Rightarrow> bool" where
  \<comment> \<open>the truth value of \<^verbatim>\<open>re.match(r, s)\<close>: a match starts at position 0\<close>
  "re_match r s = (rmatch r s 0 \<noteq> [])"

subsection \<open>The patterns of the program\<close>

definition slide_indicator :: regex where
  \<comment> \<open>\<^verbatim>\<open>attendance code|clicker question\<close>\<close>
  "slide_indicator = Alt (lit ''attendance code'') (lit ''clicker question'')"

definition token :: regex where
  \<comment> \<open>\<^verbatim>\<open>[A-Z]{2,}\<close>\<close>
  "token = at_least (Suc (Suc 0)) (Cls is_upper)"

definition spaced_token :: regex where
  \<comment> \<open>\<^verbatim>\<open>(?: [A-Z]{2,})\<close>\<close>
  "spaced_token = Seq (Cls (\<lambda>x. x = CHR '' '')) token"

definition code_pattern_thumbnail :: regex where
  \<comment> \<open>\<^verbatim>\<open>(?<![a-zA-Z0-9:/.])[A-Z]{2,}(?: [A-Z]{2,})*(?![a-zA-Z0-9:/.])\<close>, line 70\<close>
  "code_pattern_thumbnail =
     Seq (NotBehind is_context) (Seq token (Seq (Star spaced_token) (NotAhead is_context)))"

definition code_pattern_video :: regex where
  \<comment> \<open>\<^verbatim>\<open>(?<![a-zA-Z0-9:/.])[A-Z]{2,}(?: [A-Z]{2,})+(?![a-zA-Z0-9:/.])\<close>, line 267\<close>
  "code_pattern_video =
     Seq (NotBehind is_context)
       (Seq token (Seq (Seq spaced_token (Star spaced_token)) (NotAhead is_context)))"

definition fallback_line :: regex where
  \<comment> \<open>\<^verbatim>\<open>^[A-Z\s]+$\<close>\<close>
  "fallback_line =
     Seq Bos (Seq (Seq (Cls is_upper_or_space) (Star (Cls is_upper_or_space))) Eos)"

definition url_terms :: "string list" where
  "url_terms = [''http'', ''www'', ''join'', ''com'']"

definition prompt :: string where
  "prompt = ''Insert the following attendance code''"

subsection \<open>Vocabulary of the properties\<close>

definition is_token :: "string \<Rightarrow> bool" where
  \<comment> \<open>an uppercase alphabetic token of length at least 2\<close>
  "is_token t = (2 \<le> length t \<and> list_all is_upper t)"

abbreviation run :: "(char \<Rightarrow> bool) \<Rightarrow> string \<Rightarrow> nat \<Rightarrow> nat" where
  \<comment> \<open>the length of the longest run of characters of a class from position \<open>i\<close> on\<close>
  "run P s i \<equiv> length (takeWhile P (drop i s))"

abbreviation spaced :: "string list \<Rightarrow> string" where
  \<comment> \<open>tokens, each preceded by one space\<close>
  "spaced ts \<equiv> concat (map ((#) CHR '' '') ts)"

subsection \<open>Recognition\<close>

definition is_indicator_slide :: "string \<Rightarrow> bool" where
  \<comment> \<open>\<^verbatim>\<open>re.search(r'attendance code|clicker question', text.lower())\<close>\<close>
  "is_indicator_slide text = re_search slide_indicator (lower text)"

definition filtered_matches :: "regex \<Rightarrow> string \<Rightarrow> string list" where
  \<comment> \<open>\<^verbatim>\<open>re.findall\<close> followed by the filter on the URL terms\<close>
  "filtered_matches code_pattern text =
     filter (\<lambda>m. \<not> list_ex (\<lambda>url_term. sublist url_term (lower m)) url_terms)
            (findall code_pattern text)"

fun fallback_lines :: "string list \<Rightarrow> string option" where
  \<comment> \<open>the loop over \<^verbatim>\<open>lines[:5]\<close>, which returns at the first accepted line\<close>
  "fallback_lines [] = None"
| "fallback_lines (line # rest) =
     (if re_match fallback_line (strip line) \<and> 3 < length (strip line)
      then Some (strip line)
      else fallback_lines rest)"

definition fallback :: "string \<Rightarrow> string list option" where
  \<comment> \<open>lines 89 to 100; the \<^verbatim>\<open>IndexError\<close> of \<^verbatim>\<open>[1]\<close> would be caught by the handler of
      line 104, which returns \<^verbatim>\<open>None\<close>\<close>
  "fallback text =
     (if sublist prompt text then
        (case split prompt text of
           _ # after_prompt # _ \<Rightarrow>
             (case fallback_lines (take 5 (split newline after_prompt)) of
                Some code \<Rightarrow> Some [code]
              | None \<Rightarrow> None)
         | _ \<Rightarrow> None)
      else None)"

definition thumbnail_codes :: "string \<Rightarrow> string list option" where
  \<comment> \<open>lines 67 to 102 on the OCR text: the list of codes of the returned triple, or
      \<open>None\<close> where the function returns \<^verbatim>\<open>None\<close>\<close>
  "thumbnail_codes text =
     (if is_indicator_slide text then
        (let matches = filtered_matches code_pattern_thumbnail text in
         if matches \<noteq> [] then Some matches else fallback text)
      else None)"

definition video_codes :: "string \<Rightarrow> string list option" where
  \<comment> \<open>lines 266 to 281 on the OCR text: the list of codes appended to
      \<^verbatim>\<open>video_scan_results\<close>, or \<open>None\<close> where nothing is appended\<close>
  "video_codes text =
     (if is_indicator_slide text then
        (let matches = filtered_matches code_pattern_video text in
         if matches \<noteq> [] then Some matches else None)
      else None)"

subsection \<open>The collaborators and the two phases\<close>

datatype py_error = FetchError | FileError | DecodeError | CaptureError | UnboundLocalError

record 'img env =
  fetch :: "string \<Rightarrow> py_error + (nat \<times> 'img)"
    \<comment> \<open>\<^verbatim>\<open>requests.get(url)\<close>: it raises, or gives a status code and the content\<close>
  write_file :: "string \<Rightarrow> py_error option"
    \<comment> \<open>creating the directory of a file and writing the file of that name
        (\<^verbatim>\<open>os.makedirs\<close> with \<^verbatim>\<open>open\<close> and \<^verbatim>\<open>write\<close>, or with \<^verbatim>\<open>image.save\<close>): the
        exception raised, or \<open>None\<close> when the file is written\<close>
  ocr :: "'img \<Rightarrow> py_error + string"
    \<comment> \<open>\<^verbatim>\<open>Image.open\<close> and \<^verbatim>\<open>pytesseract.image_to_string\<close>\<close>
  player_found :: bool
    \<comment> \<open>the wait for \<^verbatim>\<open>.panopto-player\<close> succeeds\<close>
  video_tag_found :: bool
    \<comment> \<open>\<^verbatim>\<open>find_element(By.TAG_NAME, "video")\<close> succeeds\<close>
  timestamps :: "(nat \<times> string) list"
    \<comment> \<open>the result of \<^verbatim>\<open>extract_timestamps_from_thumbnails\<close>\<close>
  capture :: "nat \<Rightarrow> py_error + 'img"
    \<comment> \<open>lines 249 to 259: seeking to the offset, the settle delay, the screenshot and
        the writing of the screenshot to its file\<close>

type_synonym outcome = "string \<times> string list \<times> string"
  \<comment> \<open>(timestamp, codes, image file)\<close>

fun save_all :: "'img env \<Rightarrow> string list \<Rightarrow> py_error option" where
  \<comment> \<open>writing the files of a list one after the other; the first exception ends it\<close>
  "save_all E [] = None"
| "save_all E (name # names) =
     (case write_file E name of
        Some e \<Rightarrow> Some e
      | None \<Rightarrow> save_all E names)"

definition code_filenames :: "string \<Rightarrow> string \<Rightarrow> string list \<Rightarrow> string list" where
  \<comment> \<open>the files of the returned codes: \<^verbatim>\<open>code_filename\<close> of line 83 for each filtered match,
      or the one of line 98 for the code of the fallback\<close>
  "code_filenames text timestamp codes =
     (let kind = (if filtered_matches code_pattern_thumbnail text \<noteq> []
                  then ''attendance_codes/code_''
                  else ''attendance_codes/code_fallback_'')
      in map (\<lambda>code. kind @ replace_char CHR '' '' CHR ''_'' code @ ''_''
                      @ replace_char CHR '':'' CHR ''_'' timestamp @ ''.jpg'') codes)"

definition try_download_and_process_image ::
  "'img env \<Rightarrow> string \<times> string \<Rightarrow> py_error + outcome option" where
  \<comment> \<open>the body of the \<^verbatim>\<open>try\<close> block, lines 46 to 102: \<open>Inl\<close> is an exception raised in
      it, \<open>Inr\<close> the value it returns\<close>
  "try_download_and_process_image E url_timestamp =
     (let (url, timestamp) = url_timestamp in
      case fetch E url of
        Inl e \<Rightarrow> Inl e
      | Inr (status_code, content) \<Rightarrow>
          if status_code \<noteq> 200 then Inr None
          else (let filename =
                  ''thumbnails/thumbnail_'' @ replace_char CHR '':'' CHR ''_'' timestamp @ ''.jpg''
                in case write_file E filename of
                  Some e \<Rightarrow> Inl e
                | None \<Rightarrow>
                    (case ocr E content of
                       Inl e \<Rightarrow> Inl e
                     | Inr text \<Rightarrow>
                         (case thumbnail_codes text of
                            None \<Rightarrow> Inr None
                          | Some codes \<Rightarrow>
                              (case save_all E (code_filenames text timestamp codes) of
                                 Some e \<Rightarrow> Inl e
                               | None \<Rightarrow> Inr (Some (timestamp, codes, filename)))))))"

definition download_and_process_image ::
  "'img env \<Rightarrow> string \<times> string \<Rightarrow> outcome option" where
  \<comment> \<open>lines 45 to 106: the handler of line 104 catches every exception of the body and
      returns \<^verbatim>\<open>None\<close>\<close>
  "download_and_process_image E url_timestamp =
     (case try_download_and_process_image E url_timestamp of
        Inl e \<Rightarrow> None
      | Inr result \<Rightarrow> result)"

definition pool_results :: "'img env \<Rightarrow> (string \<times> string) list \<Rightarrow> outcome list" where
  \<comment> \<open>lines 191 to 202: the results that are not \<^verbatim>\<open>None\<close>, in the order in which the
      futures complete; the list given is the submitted descriptors in that order\<close>
  "pool_results E completed = List.map_filter (download_and_process_image E) completed"

definition set_add :: "string \<Rightarrow> string list \<Rightarrow> string list" where
  \<comment> \<open>\<^verbatim>\<open>found_codes.add(code)\<close>; a Python set is kept as the list of its elements in the
      order of their first insertion\<close>
  "set_add code found_codes =
     (if code \<in> set found_codes then found_codes else found_codes @ [code])"

definition add_results :: "outcome list \<Rightarrow> string list \<Rightarrow> string list" where
  \<comment> \<open>the nested loops of lines 206 to 208 and of lines 284 to 288\<close>
  "add_results results found_codes =
     fold (\<lambda>(timestamp, codes, image_file) acc. fold set_add codes acc) results found_codes"

datatype event = Locate_player | Locate_video_tag | Seek_and_capture nat | Video_ocr string

definition video_code_files :: "string \<Rightarrow> string list \<Rightarrow> string list" where
  \<comment> \<open>\<^verbatim>\<open>code_file\<close> of line 278 for each filtered match\<close>
  "video_code_files time_str codes =
     map (\<lambda>code. ''attendance_codes/video_code_'' @ replace_char CHR '' '' CHR ''_'' code @ ''_''
                  @ replace_char CHR '':'' CHR ''_'' time_str @ ''.png'') codes"

fun video_scan :: "'img env \<Rightarrow> (nat \<times> string) list \<Rightarrow> event list \<times> (py_error + outcome list)" where
  \<comment> \<open>the loop of lines 245 to 281 with the driver's actions; an exception leaves the loop\<close>
  "video_scan E [] = ([], Inr [])"
| "video_scan E ((seconds, time_str) # rest) =
     (case capture E seconds of
        Inl e \<Rightarrow> ([Seek_and_capture seconds], Inl e)
      | Inr screenshot \<Rightarrow>
          (case ocr E screenshot of
             Inl e \<Rightarrow> ([Seek_and_capture seconds], Inl e)
           | Inr text \<Rightarrow>
               (let screenshot_file =
                      ''video_frames/frame_'' @ replace_char CHR '':'' CHR ''_'' time_str @ ''.png'';
                    saved = (case video_codes text of
                               None \<Rightarrow> Inr []
                             | Some codes \<Rightarrow>
                                 (case save_all E (video_code_files time_str codes) of
                                    Some e \<Rightarrow> Inl e
                                  | None \<Rightarrow> Inr [(time_str, codes, screenshot_file)]))
                in case saved of
                     Inl e \<Rightarrow> ([Seek_and_capture seconds, Video_ocr time_str], Inl e)
                   | Inr this \<Rightarrow>
                       (let (log, r) = video_scan E rest
                        in (Seek_and_capture seconds # Video_ocr time_str # log,
                            case r of Inl e \<Rightarrow> Inl e | Inr results \<Rightarrow> Inr (this @ results))))))"

definition video_phase ::
  "'img env \<Rightarrow> string list option \<Rightarrow> event list \<times> (py_error + string list)" where
  \<comment> \<open>lines 218 to 290; \<open>found_codes\<close> is \<open>None\<close> when the local variable was never
      assigned, and reading it then raises \<^verbatim>\<open>UnboundLocalError\<close>\<close>
  "video_phase E found_codes =
     (if \<not> player_found E \<and> \<not> video_tag_found E
      then ([Locate_player, Locate_video_tag], Inr [])
      else
        (let located = (if player_found E then [Locate_player]
                        else [Locate_player, Locate_video_tag]);
             (log, r) = video_scan E (timestamps E)
         in (located @ log,
             case r of
               Inl e \<Rightarrow> Inl e
             | Inr video_scan_results \<Rightarrow>
                 (case found_codes of
                    None \<Rightarrow> Inl UnboundLocalError
                  | Some found \<Rightarrow> Inr (add_results video_scan_results found)))))"

definition extract_attendance_codes ::
  "'img env \<Rightarrow> (string \<times> string) list \<Rightarrow> event list \<times> (py_error + string list)" where
  \<comment> \<open>lines 186 to 290: \<open>image_urls\<close> is the list of thumbnail descriptors (in the order
      in which their tasks complete); the result is the driver's actions of the video
      phase and the returned list or the exception raised. Python leaves the order of
      \<^verbatim>\<open>list(found_codes)\<close> open; the model returns the codes in the order of their
      first insertion\<close>
  "extract_attendance_codes E image_urls =
     (if image_urls \<noteq> [] then
        (let results = pool_results E image_urls;
             found_codes = add_results results []
         in if found_codes \<noteq> [] then ([], Inr found_codes)
            else video_phase E (Some found_codes))
      else video_phase E None)"

subsection \<open>Scenarios\<close>

text \<open>
  Concrete environments on which the model is run. An image is represented by the text
  that the OCR engine reads from it, and every file is written.
\<close>

definition video_only_env :: "string env" where
  \<comment> \<open>no thumbnail is fetched; the player is found; the first of two navigation points
      shows noise, the second a clicker question\<close>
  "video_only_env =
     \<lparr> fetch = (\<lambda>url. Inl FetchError),
       write_file = (\<lambda>name. None),
       ocr = (\<lambda>image. Inr image),
       player_found = True,
       video_tag_found = True,
       timestamps = [(0, ''0:00''), (60, ''1:00'')],
       capture = (\<lambda>seconds. if seconds = 0 then Inr ''~~ noise ~~''
                              else Inr ''clicker question ... QRST UVWX'') \<rparr>"

definition thumbnail_env :: "string env" where
  \<comment> \<open>three thumbnails: two attendance slides and one unrelated slide\<close>
  "thumbnail_env =
     \<lparr> fetch = (\<lambda>url. if url = ''a.jpg'' then Inr (200, ''attendance code ABCD EFGH'')
                       else if url = ''b.jpg'' then Inr (200, ''Attendance Code: WXYZ'')
                       else if url = ''c.jpg'' then Inr (200, ''lecture 3, unrelated'')
                       else Inl FetchError),
       write_file = (\<lambda>name. None),
       ocr = (\<lambda>image. Inr image),
       player_found = True,
       video_tag_found = True,
       timestamps = [(5, ''0:05''), (65, ''1:05''), (125, ''2:05'')],
       capture = (\<lambda>seconds. Inl CaptureError) \<rparr>"

definition thumbnail_urls :: "(string \<times> string) list" where
  "thumbnail_urls = [(''a.jpg'', ''0:05''), (''b.jpg'', ''1:05''), (''c.jpg'', ''2:05'')]"

definition repeat_env :: "string env" where
  \<comment> \<open>one thumbnail without a code; two video frames that show the same code\<close>
  "repeat_env =
     \<lparr> fetch = (\<lambda>url. Inr (200, ''lecture 3, unrelated'')),
       write_file = (\<lambda>name. None),
       ocr = (\<lambda>image. Inr image),
       player_found = False,
       video_tag_found = True,
       timestamps = [(0, ''0:00''), (60, ''1:00'')],
       capture = (\<lambda>seconds. Inr ''clicker question ... QRST UVWX'') \<rparr>"

definition welcome_slide :: string where
  \<comment> \<open>an attendance slide whose only code is a single word that contains a URL term\<close>
  "welcome_slide = ''Insert the following attendance code'' @ newline @ ''WELCOME''"

definition welcome_env :: "string env" where
  \<comment> \<open>the video shows the slide \<open>welcome_slide\<close> at its only navigation point\<close>
  "welcome_env =
     \<lparr> fetch = (\<lambda>url. Inl FetchError),
       write_file = (\<lambda>name. None),
       ocr = (\<lambda>image. Inr image),
       player_found = True,
       video_tag_found = True,
       timestamps = [(0, ''0:00'')],
       capture = (\<lambda>seconds. Inr welcome_slide) \<rparr>"

definition lut_text :: string where
  \<comment> \<open>a word followed by a colon, a code of two tokens, a code of one token\<close>
  "lut_text = ''CODE: LUT DESERT, CAT''"

definition spelled_slide :: string where
  \<comment> \<open>an attendance slide whose code is spelled in single letters\<close>
  "spelled_slide = ''Insert the following attendance code'' @ newline @ ''A B C D''"

definition mixed_slide :: string where
  \<comment> \<open>an attendance slide with a code and pieces of a URL\<close>
  "mixed_slide = ''Attendance code: LUT DESERT - JOIN at WWW.EXAMPLE.COM''"

definition lowercase_slide :: string where
  \<comment> \<open>an attendance slide whose code line is in lowercase letters\<close>
  "lowercase_slide = ''Insert the following attendance code'' @ newline @ ''abcd''"

definition quiz_slide :: string where
  \<comment> \<open>an attendance slide, with text before the prompt, whose code lines hold URL terms\<close>
  "quiz_slide = ''Quiz 2. Insert the following attendance code: '' @ newline @
     ''  WELCOME TO COMP  '' @ newline @ ''JOIN US''"

section \<open>Properties\<close>

subsection \<open>The set of found codes\<close>

lemma distinct_set_add: "distinct acc \<Longrightarrow> distinct (set_add c acc)"
  by (simp add: set_add_def)

lemma set_set_add: "set (set_add c acc) = insert c (set acc)"
  by (auto simp: set_add_def)

lemma distinct_fold_set_add: "distinct acc \<Longrightarrow> distinct (fold set_add codes acc)"
  by (induction codes arbitrary: acc) (simp_all add: distinct_set_add)

lemma set_fold_set_add: "set (fold set_add codes acc) = set codes \<union> set acc"
  by (induction codes arbitrary: acc) (auto simp: set_set_add)

lemma add_results_Nil: "add_results [] acc = acc"
  by (simp add: add_results_def)

lemma add_results_Cons:
  "add_results ((timestamp, codes, image_file) # results) acc =
     add_results results (fold set_add codes acc)"
  by (simp add: add_results_def)

lemma distinct_add_results: "distinct acc \<Longrightarrow> distinct (add_results results acc)"
proof (induction results arbitrary: acc)
  case Nil
  then show ?case by (simp add: add_results_Nil)
next
  case (Cons r results)
  obtain timestamp codes image_file where r: "r = (timestamp, codes, image_file)"
    by (cases r)
  show ?case
    unfolding r add_results_Cons
    by (rule Cons.IH) (rule distinct_fold_set_add, rule Cons.prems)
qed

lemma set_add_results:
  "set (add_results results acc) = (\<Union>r\<in>set results. set (fst (snd r))) \<union> set acc"
proof (induction results arbitrary: acc)
  case Nil
  then show ?case by (simp add: add_results_Nil)
next
  case (Cons r results)
  obtain timestamp codes image_file where r: "r = (timestamp, codes, image_file)"
    by (cases r)
  show ?case
    unfolding r add_results_Cons Cons.IH set_fold_set_add by auto
qed

subsection \<open>Runs of a character class and the tokens of a code\<close>

lemma drop_nth_Cons: "i < length s \<Longrightarrow> drop i s = s ! i # drop (Suc i) s"
  by (simp add: Cons_nth_drop_Suc)

lemma run_step:
  "i < length s \<Longrightarrow> P (s ! i) \<Longrightarrow> run P s i = Suc (run P s (Suc i))"
  using drop_nth_Cons [of i s] by simp

lemma run_stop: "i < length s \<Longrightarrow> \<not> P (s ! i) \<Longrightarrow> run P s i = 0"
  using drop_nth_Cons [of i s] by simp

lemma run_end: "length s \<le> i \<Longrightarrow> run P s i = 0"
  by simp

lemma run_le: "i \<le> length s \<Longrightarrow> i + run P s i \<le> length s"
proof -
  assume "i \<le> length s"
  have "run P s i \<le> length (drop i s)"
    by (rule length_takeWhile_le)
  then show ?thesis using \<open>i \<le> length s\<close> by simp
qed

lemma run_all: "i \<le> k \<Longrightarrow> k < i + run P s i \<Longrightarrow> P (s ! k)"
proof -
  assume a: "i \<le> k" "k < i + run P s i"
  then have lt: "k - i < length (takeWhile P (drop i s))" by simp
  then have "P (takeWhile P (drop i s) ! (k - i))"
    using set_takeWhileD [OF nth_mem [OF lt]] by simp
  moreover have "takeWhile P (drop i s) ! (k - i) = drop i s ! (k - i)"
    using lt by (rule takeWhile_nth)
  moreover have "k < length s"
    using lt length_takeWhile_le [of P "drop i s"] a by simp
  ultimately show ?thesis using a by simp
qed

lemma run_next: "i + run P s i < length s \<Longrightarrow> \<not> P (s ! (i + run P s i))"
proof -
  assume a: "i + run P s i < length s"
  then have "run P s i < length (drop i s)" by simp
  then have "\<not> P (drop i s ! run P s i)"
    by (rule nth_length_takeWhile)
  then show ?thesis using a by simp
qed

lemma rmatch_star_cls_unfold:
  "rmatch (Star (Cls P)) s i =
     (if i < length s \<and> P (s ! i) then rmatch (Star (Cls P)) s (Suc i) else []) @ [i]"
proof (cases "i < length s \<and> P (s ! i)")
  case True
  then have "rmatch (Cls P) s i = [Suc i]" by simp
  then show ?thesis
    using True by (subst rmatch.simps(5)) simp
next
  case False
  then have "rmatch (Cls P) s i = []" by simp
  then show ?thesis
    using False by (subst rmatch.simps(5)) auto
qed

lemma rmatch_star_cls:
  "rmatch (Star (Cls P)) s i = rev [i..<Suc (i + run P s i)]"
proof (induction "length s - i" arbitrary: i)
  case 0
  then have "length s \<le> i" by simp
  then have "rmatch (Star (Cls P)) s i = [i]" "run P s i = 0"
    by (simp_all add: rmatch_star_cls_unfold)
  then show ?case by simp
next
  case (Suc n)
  then have lt: "i < length s" by simp
  show ?case
  proof (cases "P (s ! i)")
    case True
    have n: "n = length s - Suc i" using Suc.hyps(2) by simp
    have "rmatch (Star (Cls P)) s i = rmatch (Star (Cls P)) s (Suc i) @ [i]"
      using lt True by (simp add: rmatch_star_cls_unfold [of P s i])
    also have "\<dots> = rev [Suc i..<Suc (Suc i + run P s (Suc i))] @ [i]"
      by (simp only: Suc.hyps(1) [OF n])
    also have "\<dots> = rev (i # [Suc i..<Suc (Suc i + run P s (Suc i))])"
      by simp
    also have "i # [Suc i..<Suc (Suc i + run P s (Suc i))] = [i..<Suc (Suc i + run P s (Suc i))]"
      by (rule upt_conv_Cons [symmetric]) simp
    also have "Suc (Suc i + run P s (Suc i)) = Suc (i + run P s i)"
      by (simp add: run_step [of i s P, OF lt True])
    finally show ?thesis .
  next
    case False
    then have "rmatch (Star (Cls P)) s i = [i]" "run P s i = 0"
      using lt by (simp_all add: rmatch_star_cls_unfold [of P s i] run_stop)
    then show ?thesis by simp
  qed
qed

lemma rmatch_cls_seq:
  "rmatch (Seq (Cls P) r) s i = (if i < length s \<and> P (s ! i) then rmatch r s (Suc i) else [])"
  by auto

lemma set_rmatch_seq:
  "set (rmatch (Seq a b) s i) = (\<Union>k\<in>set (rmatch a s i). set (rmatch b s k))"
  by simp

lemma rmatch_token:
  "rmatch token s i =
     (if 2 \<le> run is_upper s i then rev [i + 2..<Suc (i + run is_upper s i)] else [])"
proof (cases "i < length s \<and> is_upper (s ! i)")
  case False
  then have "run is_upper s i = 0"
    using run_stop [of i s is_upper] run_end [of s i is_upper] by (cases "i < length s") auto
  moreover have "rmatch token s i = []"
    unfolding token_def at_least.simps rmatch_cls_seq using False by auto
  ultimately show ?thesis by simp
next
  case first: True
  then have r1: "run is_upper s i = Suc (run is_upper s (Suc i))"
    using run_step [of i s is_upper] by simp
  have m1: "rmatch token s i = rmatch (Seq (Cls is_upper) (Star (Cls is_upper))) s (Suc i)"
    unfolding token_def at_least.simps using first by (subst rmatch_cls_seq) simp
  show ?thesis
  proof (cases "Suc i < length s \<and> is_upper (s ! Suc i)")
    case False
    then have "run is_upper s (Suc i) = 0"
      using run_stop [of "Suc i" s is_upper] run_end [of s "Suc i" is_upper]
      by (cases "Suc i < length s") auto
    moreover have "rmatch token s i = []"
      unfolding m1 rmatch_cls_seq using False by auto
    ultimately show ?thesis using r1 by simp
  next
    case second: True
    then have r2: "run is_upper s (Suc i) = Suc (run is_upper s (Suc (Suc i)))"
      using run_step [of "Suc i" s is_upper] by simp
    have "rmatch token s i = rmatch (Star (Cls is_upper)) s (Suc (Suc i))"
      unfolding m1 using second by (subst rmatch_cls_seq) simp
    also have "\<dots> = rev [Suc (Suc i)..<Suc (Suc (Suc i) + run is_upper s (Suc (Suc i)))]"
      by (rule rmatch_star_cls)
    finally show ?thesis
      using r1 r2 by simp
  qed
qed

lemma rmatch_token_bounds:
  assumes "j \<in> set (rmatch token s i)"
  shows "i + 2 \<le> j" and "j \<le> i + run is_upper s i"
  using assms by (auto simp: rmatch_token split: if_splits)

lemma rmatch_spaced_token:
  "rmatch spaced_token s i =
     (if i < length s \<and> s ! i = CHR '' '' then rmatch token s (Suc i) else [])"
  unfolding spaced_token_def by (rule rmatch_cls_seq)

lemma substring_append:
  "i \<le> j \<Longrightarrow> j \<le> e \<Longrightarrow> substring s i e = substring s i j @ substring s j e"
proof -
  assume a: "i \<le> j" "j \<le> e"
  then have "e - i = (j - i) + (e - j)" by simp
  then have "take (e - i) (drop i s) = take (j - i) (drop i s) @ take (e - j) (drop (j - i) (drop i s))"
    by (simp only: take_add)
  then show ?thesis
    using a by (simp add: substring_def)
qed

lemma substring_Cons:
  "i < length s \<Longrightarrow> i < e \<Longrightarrow> substring s i e = s ! i # substring s (Suc i) e"
proof -
  assume a: "i < length s" "i < e"
  then obtain n where n: "e - i = Suc n" "e - Suc i = n"
    by (cases "e - i") auto
  show ?thesis
    unfolding substring_def n drop_nth_Cons [OF a(1)] by simp
qed

lemma length_substring: "e \<le> length s \<Longrightarrow> length (substring s i e) = e - i"
  by (auto simp: substring_def)

lemma nth_substring:
  "e \<le> length s \<Longrightarrow> k < e - i \<Longrightarrow> substring s i e ! k = s ! (i + k)"
  by (simp add: substring_def)

lemma list_all_substring:
  assumes "e \<le> length s" and "\<And>k. i \<le> k \<Longrightarrow> k < e \<Longrightarrow> P (s ! k)"
  shows "list_all P (substring s i e)"
  unfolding list_all_length
proof (intro allI impI)
  fix n assume "n < length (substring s i e)"
  then have n: "n < e - i"
    using assms(1) by (simp add: length_substring)
  then have "P (s ! (i + n))"
    by (intro assms(2)) simp_all
  then show "P (substring s i e ! n)"
    using nth_substring [OF assms(1) n] by simp
qed

lemma token_substring:
  assumes "j \<in> set (rmatch token s i)" and "i \<le> length s"
  shows "is_token (substring s i j)" and "j \<le> length s" and "i < j"
proof -
  have b: "i + 2 \<le> j" "j \<le> i + run is_upper s i"
    using rmatch_token_bounds [OF assms(1)] by simp_all
  show j: "j \<le> length s"
    using b(2) run_le [OF assms(2), of is_upper] by simp
  show "i < j" using b(1) by simp
  have "list_all is_upper (substring s i j)"
    by (rule list_all_substring [OF j]) (rule run_all, simp, use b(2) in simp)
  then show "is_token (substring s i j)"
    using b(1) j by (simp add: is_token_def length_substring)
qed

lemma set_rmatch_star:
  "set (rmatch (Star a) s i) =
     insert i (\<Union>j\<in>set (rmatch a s i).
                 if i < j \<and> j \<le> length s then set (rmatch (Star a) s j) else {})"
  by (subst rmatch.simps(5)) auto

lemma star_spaced_token_shape:
  assumes "e \<in> set (rmatch (Star spaced_token) s i)" and "i \<le> length s"
  shows "\<exists>ts. substring s i e = spaced ts \<and> list_all is_token ts \<and> i \<le> e \<and> e \<le> length s"
  using assms
proof (induction "length s - i" arbitrary: i rule: less_induct)
  case less
  from less.prems(1) consider (stop) "e = i"
    | (step) j where "j \<in> set (rmatch spaced_token s i)" "i < j" "j \<le> length s"
        "e \<in> set (rmatch (Star spaced_token) s j)"
    by (subst (asm) set_rmatch_star) (auto split: if_splits)
  then show ?case
  proof cases
    case stop
    have "substring s i e = spaced []"
      using stop by (simp add: substring_def)
    then show ?thesis
      using stop less.prems(2) by (intro exI [of _ "[]"]) simp
  next
    case step
    from step(1) have i: "i < length s" "s ! i = CHR '' ''"
      and tok: "j \<in> set (rmatch token s (Suc i))"
      by (simp_all add: rmatch_spaced_token split: if_splits)
    have t: "is_token (substring s (Suc i) j)"
      using token_substring(1) [OF tok] i(1) by simp
    have "length s - j < length s - i"
      using step(2,3) by simp
    from less.hyps [OF this step(4) step(3)]
    obtain ts where ts: "substring s j e = spaced ts" "list_all is_token ts" "j \<le> e" "e \<le> length s"
      by blast
    have "substring s i e = substring s i j @ substring s j e"
      using step(2) ts(3) by (intro substring_append) simp_all
    also have "substring s i j = CHR '' '' # substring s (Suc i) j"
      using substring_Cons [OF i(1) step(2)] i(2) by simp
    finally have "substring s i e = spaced (substring s (Suc i) j # ts)"
      using ts(1) by simp
    moreover have "list_all is_token (substring s (Suc i) j # ts)"
      using t ts(2) by simp
    moreover have "i \<le> e" using step(2) ts(3) by simp
    ultimately show ?thesis
      using ts(4) by blast
  qed
qed

lemma rmatch_not_behind:
  "e \<in> set (rmatch (NotBehind P) s i) \<longleftrightarrow> e = i \<and> \<not> (0 < i \<and> i \<le> length s \<and> P (s ! (i - 1)))"
  by auto

lemma rmatch_not_ahead:
  "e \<in> set (rmatch (NotAhead P) s i) \<longleftrightarrow> e = i \<and> \<not> (i < length s \<and> P (s ! i))"
  by auto

lemma thumbnail_match_shape:
  assumes "e \<in> set (rmatch code_pattern_thumbnail s i)" and "i \<le> length s"
  shows "\<exists>t ts. substring s i e = t @ spaced ts \<and> is_token t \<and> list_all is_token ts"
    and "i < e" and "e \<le> length s"
    and "\<not> (0 < i \<and> is_context (s ! (i - 1)))"
    and "\<not> (e < length s \<and> is_context (s ! e))"
proof -
  from assms(1) have "\<exists>i'\<in>set (rmatch (NotBehind is_context) s i).
      \<exists>k\<in>set (rmatch token s i'). \<exists>e'\<in>set (rmatch (Star spaced_token) s k).
        e \<in> set (rmatch (NotAhead is_context) s e')"
    unfolding code_pattern_thumbnail_def set_rmatch_seq by blast
  then obtain i' k e' where "i' \<in> set (rmatch (NotBehind is_context) s i)"
    and "k \<in> set (rmatch token s i')"
    and "e' \<in> set (rmatch (Star spaced_token) s k)"
    and "e \<in> set (rmatch (NotAhead is_context) s e')"
    by blast
  then have behind: "\<not> (0 < i \<and> i \<le> length s \<and> is_context (s ! (i - 1)))"
    and k: "k \<in> set (rmatch token s i)"
    and star: "e \<in> set (rmatch (Star spaced_token) s k)"
    and ahead: "\<not> (e < length s \<and> is_context (s ! e))"
    using rmatch_not_behind [of i' is_context s i] rmatch_not_ahead [of e is_context s e']
    by blast+
  have t: "is_token (substring s i k)" "k \<le> length s" "i < k"
    using token_substring [OF k assms(2)] by simp_all
  from star_spaced_token_shape [OF star t(2)]
  obtain ts where ts: "substring s k e = spaced ts" "list_all is_token ts" "k \<le> e" "e \<le> length s"
    by blast
  have "substring s i e = substring s i k @ spaced ts"
    using substring_append [of i k e s] t(3) ts(1,3) by simp
  then show "\<exists>t ts. substring s i e = t @ spaced ts \<and> is_token t \<and> list_all is_token ts"
    using t(1) ts(2) by blast
  show "i < e" using t(3) ts(3) by simp
  show "e \<le> length s" by (rule ts(4))
  show "\<not> (0 < i \<and> is_context (s ! (i - 1)))" using behind assms(2) by simp
  show "\<not> (e < length s \<and> is_context (s ! e))" by (rule ahead)
qed

lemma video_match_shape:
  assumes "e \<in> set (rmatch code_pattern_video s i)" and "i \<le> length s"
  shows "\<exists>t ts. substring s i e = t @ spaced ts \<and> is_token t \<and> list_all is_token ts \<and> ts \<noteq> []"
    and "i < e" and "e \<le> length s"
    and "\<not> (0 < i \<and> is_context (s ! (i - 1)))"
    and "\<not> (e < length s \<and> is_context (s ! e))"
proof -
  from assms(1) have "\<exists>i'\<in>set (rmatch (NotBehind is_context) s i).
      \<exists>k\<in>set (rmatch token s i'). \<exists>j\<in>set (rmatch spaced_token s k).
        \<exists>e'\<in>set (rmatch (Star spaced_token) s j).
          e \<in> set (rmatch (NotAhead is_context) s e')"
    unfolding code_pattern_video_def set_rmatch_seq by blast
  then obtain i' k j e' where "i' \<in> set (rmatch (NotBehind is_context) s i)"
    and "k \<in> set (rmatch token s i')"
    and j: "j \<in> set (rmatch spaced_token s k)"
    and "e' \<in> set (rmatch (Star spaced_token) s j)"
    and "e \<in> set (rmatch (NotAhead is_context) s e')"
    by blast
  then have behind: "\<not> (0 < i \<and> i \<le> length s \<and> is_context (s ! (i - 1)))"
    and k: "k \<in> set (rmatch token s i)"
    and star: "e \<in> set (rmatch (Star spaced_token) s j)"
    and ahead: "\<not> (e < length s \<and> is_context (s ! e))"
    using rmatch_not_behind [of i' is_context s i] rmatch_not_ahead [of e is_context s e']
    by blast+
  have t: "is_token (substring s i k)" "k \<le> length s" "i < k"
    using token_substring [OF k assms(2)] by simp_all
  from j have sp: "k < length s" "s ! k = CHR '' ''" and tok: "j \<in> set (rmatch token s (Suc k))"
    by (simp_all add: rmatch_spaced_token split: if_splits)
  have u: "is_token (substring s (Suc k) j)" "j \<le> length s" "Suc k < j"
    using token_substring [OF tok] sp(1) by simp_all
  from star_spaced_token_shape [OF star u(2)]
  obtain ts where ts: "substring s j e = spaced ts" "list_all is_token ts" "j \<le> e" "e \<le> length s"
    by blast
  have "substring s k j = CHR '' '' # substring s (Suc k) j"
    using substring_Cons [OF sp(1), of j] u(3) sp(2) by simp
  moreover have "substring s k e = substring s k j @ substring s j e"
    using substring_append [of k j e s] u(3) ts(3) by simp
  moreover have "substring s i e = substring s i k @ substring s k e"
    using substring_append [of i k e s] t(3) u(3) ts(3) by simp
  ultimately have "substring s i e = substring s i k @ spaced (substring s (Suc k) j # ts)"
    using ts(1) by simp
  moreover have "list_all is_token (substring s (Suc k) j # ts)"
    using u(1) ts(2) by simp
  ultimately show "\<exists>t ts. substring s i e = t @ spaced ts \<and> is_token t \<and> list_all is_token ts \<and> ts \<noteq> []"
    using t(1) by blast
  show "i < e" using t(3) u(3) ts(3) by simp
  show "e \<le> length s" by (rule ts(4))
  show "\<not> (0 < i \<and> is_context (s ! (i - 1)))" using behind assms(2) by simp
  show "\<not> (e < length s \<and> is_context (s ! e))" by (rule ahead)
qed

lemma finditer_sound:
  "(i, e) \<in> set (finditer r s k) \<Longrightarrow> k \<le> i \<and> i \<le> length s \<and> e \<in> set (rmatch r s i)"
proof (induction r s k rule: finditer.induct)
  case (1 r s k)
  show ?case
  proof (cases "rmatch r s k")
    case Nil
    then have "(i, e) \<in> set (finditer r s (Suc k))" and "\<not> length s < k"
      using "1.prems" by (subst (asm) finditer.simps, simp split: if_splits)+
    then show ?thesis
      using "1.IH"(1) [OF _ Nil] by simp
  next
    case (Cons e' rest)
    have k: "\<not> length s < k"
      using "1.prems" by (subst (asm) finditer.simps) (simp split: if_splits)
    then have "(i, e) = (k, e') \<or> (i, e) \<in> set (finditer r s (if k < e' then e' else Suc k))"
      using "1.prems" Cons by (subst (asm) finditer.simps) simp
    then show ?thesis
    proof
      assume "(i, e) = (k, e')"
      then show ?thesis using k Cons by simp
    next
      assume "(i, e) \<in> set (finditer r s (if k < e' then e' else Suc k))"
      from "1.IH"(2) [OF k Cons this] show ?thesis
        by (simp split: if_splits)
    qed
  qed
qed

subsection \<open>Splitting a code into its tokens\<close>

lemma is_upper_not_space: "\<not> is_upper CHR '' ''"
  by (simp add: is_upper_def)

lemma token_no_space: "is_token t \<Longrightarrow> CHR '' '' \<notin> set t"
  using is_upper_not_space by (auto simp: is_token_def list_all_iff)

lemma split_aux_no_space:
  "CHR '' '' \<notin> set t \<Longrightarrow> split_aux '' '' acc t = [rev acc @ t]"
  by (induction t arbitrary: acc) simp_all

lemma split_aux_space_block:
  "CHR '' '' \<notin> set t \<Longrightarrow>
     split_aux '' '' acc (t @ CHR '' '' # rest) = (rev acc @ t) # split_aux '' '' [] rest"
  by (induction t arbitrary: acc) simp_all

lemma split_tokens:
  "list_all is_token (t # ts) \<Longrightarrow> split '' '' (t @ spaced ts) = t # ts"
proof (induction ts arbitrary: t)
  case Nil
  then show ?case
    by (simp add: split_def split_aux_no_space token_no_space)
next
  case (Cons u us)
  have "split '' '' (t @ spaced (u # us)) = split_aux '' '' [] (t @ CHR '' '' # (u @ spaced us))"
    by (simp add: split_def)
  also have "\<dots> = t # split '' '' (u @ spaced us)"
    using Cons.prems by (simp add: split_aux_space_block token_no_space split_def)
  also have "split '' '' (u @ spaced us) = u # us"
    using Cons.prems by (intro Cons.IH) simp
  finally show ?case .
qed

lemma in_findall:
  "m \<in> set (findall r s) \<longleftrightarrow> (\<exists>i e. (i, e) \<in> set (finditer r s 0) \<and> m = substring s i e)"
  by (auto simp: findall_def)

lemma video_findall_shape:
  assumes "m \<in> set (findall code_pattern_video text)"
  shows "2 \<le> length (split '' '' m) \<and> list_all is_token (split '' '' m)"
proof -
  from assms obtain i e where ie: "(i, e) \<in> set (finditer code_pattern_video text 0)"
    and m: "m = substring text i e"
    unfolding in_findall by blast
  from finditer_sound [OF ie] have "e \<in> set (rmatch code_pattern_video text i)" "i \<le> length text"
    by simp_all
  from video_match_shape(1) [OF this]
  obtain t ts where "m = t @ spaced ts" "is_token t" "list_all is_token ts" "ts \<noteq> []"
    unfolding m by blast
  then have "split '' '' m = t # ts" "list_all is_token (t # ts)" "1 \<le> length ts"
    by (simp_all add: split_tokens Suc_le_eq)
  then show ?thesis by simp
qed

lemma thumbnail_findall_shape:
  assumes "m \<in> set (findall code_pattern_thumbnail text)"
  shows "1 \<le> length (split '' '' m) \<and> list_all is_token (split '' '' m)"
proof -
  from assms obtain i e where ie: "(i, e) \<in> set (finditer code_pattern_thumbnail text 0)"
    and m: "m = substring text i e"
    unfolding in_findall by blast
  from finditer_sound [OF ie] have "e \<in> set (rmatch code_pattern_thumbnail text i)" "i \<le> length text"
    by simp_all
  from thumbnail_match_shape(1) [OF this]
  obtain t ts where "m = t @ spaced ts" "is_token t" "list_all is_token ts"
    unfolding m by blast
  then have "split '' '' m = t # ts" "list_all is_token (t # ts)"
    by (simp_all add: split_tokens)
  then show ?thesis by simp
qed

lemma finditer_none:
  "(\<And>k. i \<le> k \<Longrightarrow> k \<le> length s \<Longrightarrow> rmatch r s k = []) \<Longrightarrow> finditer r s i = []"
proof (induction "Suc (length s) - i" arbitrary: i)
  case 0
  then have "length s < i" by simp
  then show ?case by (subst finditer.simps) simp
next
  case (Suc n)
  then have le: "i \<le> length s" by simp
  have "rmatch r s i = []"
    using Suc.prems [of i] le by simp
  then have "finditer r s i = finditer r s (Suc i)"
    using le by (subst finditer.simps) simp
  also have "\<dots> = []"
    using Suc.hyps(2) Suc.prems by (intro Suc.hyps(1)) simp_all
  finally show ?case .
qed

lemma rmatch_star_stop: "rmatch a s k = [] \<Longrightarrow> rmatch (Star a) s k = [k]"
  by (subst rmatch.simps(5)) simp

lemma concat_only_last:
  assumes "a \<le> n" and "g n = [n]" and "\<And>k. a \<le> k \<Longrightarrow> k < n \<Longrightarrow> g k = []"
  shows "concat (map g (rev [a..<Suc n])) = [n :: nat]"
proof -
  have "concat (map g (rev [a..<n])) = []"
    using assms(3) by (auto simp: concat_eq_Nil_conv)
  then show ?thesis
    using assms(1,2) by simp
qed

subsection \<open>A text that is one token\<close>

lemma upper_is_context: "is_upper c \<Longrightarrow> is_context c"
  by (simp add: is_context_def)

lemma single_token_facts:
  assumes "is_token t"
  shows "run is_upper t 0 = length t" and "2 \<le> length t"
    and "\<And>k. k < length t \<Longrightarrow> is_upper (t ! k)"
proof -
  have all: "list_all is_upper t" and "2 \<le> length t"
    using assms by (simp_all add: is_token_def)
  then show "2 \<le> length t" by simp
  have "\<forall>c\<in>set t. is_upper c"
    using all by (simp add: list_all_iff)
  then have tw: "takeWhile is_upper t = t"
    by (rule takeWhile_eq_all_conv [THEN iffD2])
  show "run is_upper t 0 = length t"
    by (simp only: drop_0 tw)
  show "\<And>k. k < length t \<Longrightarrow> is_upper (t ! k)"
    using all by (simp add: list_all_length)
qed

lemma single_token_spaced_none:
  assumes "is_token t" and "k \<le> length t"
  shows "rmatch spaced_token t k = []"
proof (cases "k < length t")
  case True
  then have "is_upper (t ! k)"
    using single_token_facts(3) [OF assms(1)] by simp
  then have "t ! k \<noteq> CHR '' ''"
    using is_upper_not_space by auto
  then show ?thesis
    by (simp add: rmatch_spaced_token)
next
  case False
  then show ?thesis
    by (simp add: rmatch_spaced_token)
qed

lemma single_token_behind:
  assumes "is_token t" and "0 < i" and "i \<le> length t"
  shows "rmatch (Seq (NotBehind is_context) r) t i = []"
proof -
  have "is_context (t ! (i - 1))"
    using single_token_facts(3) [OF assms(1), of "i - 1"] assms(2,3)
    by (simp add: upper_is_context)
  then show ?thesis
    using assms(2,3) by simp
qed

lemma single_token_tail:
  assumes "is_token t" and "k \<le> length t"
  shows "rmatch (Seq (Star spaced_token) (NotAhead is_context)) t k =
           (if k < length t then [] else [k])"
proof -
  have "rmatch (Star spaced_token) t k = [k]"
    by (rule rmatch_star_stop) (rule single_token_spaced_none [OF assms])
  moreover have "k < length t \<Longrightarrow> is_context (t ! k)"
    using single_token_facts(3) [OF assms(1)] by (simp add: upper_is_context)
  ultimately show ?thesis
    by auto
qed

lemma single_token_thumbnail_at_0:
  assumes "is_token t"
  shows "rmatch code_pattern_thumbnail t 0 = [length t]"
proof -
  let ?g = "rmatch (Seq (Star spaced_token) (NotAhead is_context)) t"
  have tok: "rmatch token t 0 = rev [2..<Suc (length t)]"
    using single_token_facts(1,2) [OF assms] by (simp add: rmatch_token numeral_2_eq_2)
  have "rmatch code_pattern_thumbnail t 0 = concat (map ?g (rmatch token t 0))"
    by (simp add: code_pattern_thumbnail_def)
  also have "\<dots> = concat (map ?g (rev [2..<Suc (length t)]))"
    by (simp only: tok)
  also have "\<dots> = [length t]"
  proof (rule concat_only_last [OF single_token_facts(2) [OF assms]])
    show "?g (length t) = [length t]"
      using single_token_tail [OF assms le_refl] by (simp only: less_irrefl if_False)
    show "?g k = []" if "2 \<le> k" "k < length t" for k
      using single_token_tail [OF assms less_imp_le [OF that(2)]] that(2) by (simp only: if_True)
  qed
  finally show ?thesis .
qed

lemma single_token_video_none:
  assumes "is_token t" and "i \<le> length t"
  shows "rmatch code_pattern_video t i = []"
proof (cases "0 < i")
  case True
  then show ?thesis
    unfolding code_pattern_video_def by (rule single_token_behind [OF assms(1) _ assms(2)])
next
  case False
  let ?g = "rmatch (Seq (Seq spaced_token (Star spaced_token)) (NotAhead is_context)) t"
  have tok: "\<And>k. k \<in> set (rmatch token t 0) \<Longrightarrow> k \<le> length t"
    using token_substring(2) [of _ t 0] by simp
  have "\<And>k. k \<in> set (rmatch token t 0) \<Longrightarrow> ?g k = []"
    using single_token_spaced_none [OF assms(1)] tok by simp
  then have "concat (map ?g (rmatch token t 0)) = []"
    by (simp add: concat_eq_Nil_conv)
  then show ?thesis
    using False by (simp add: code_pattern_video_def)
qed

lemma single_token_findall:
  assumes "is_token t"
  shows "findall code_pattern_thumbnail t = [t]" and "findall code_pattern_video t = []"
proof -
  have n: "0 < length t"
    using single_token_facts(2) [OF assms] by linarith
  have "rmatch code_pattern_thumbnail t (length t) = []"
    unfolding code_pattern_thumbnail_def
    by (rule single_token_behind [OF assms n]) simp
  then have "finditer code_pattern_thumbnail t (length t) = finditer code_pattern_thumbnail t (Suc (length t))"
    by (subst finditer.simps) simp
  also have "\<dots> = []"
    by (subst finditer.simps) simp
  finally have rest: "finditer code_pattern_thumbnail t (length t) = []" .
  have "finditer code_pattern_thumbnail t 0 = [(0, length t)]"
    using n by (subst finditer.simps) (simp add: single_token_thumbnail_at_0 [OF assms] rest)
  then show "findall code_pattern_thumbnail t = [t]"
    by (simp add: findall_def substring_def)
  have "finditer code_pattern_video t 0 = []"
    by (rule finditer_none) (rule single_token_video_none [OF assms])
  then show "findall code_pattern_video t = []"
    by (simp add: findall_def)
qed

lemma finditer_lookaround:
  assumes "(i, e) \<in> set (finditer code_pattern_thumbnail text 0)
             \<or> (i, e) \<in> set (finditer code_pattern_video text 0)"
  shows "i < e \<and> e \<le> length text \<and> \<not> (0 < i \<and> is_context (text ! (i - 1)))
           \<and> \<not> (e < length text \<and> is_context (text ! e))"
  using assms
proof
  assume "(i, e) \<in> set (finditer code_pattern_thumbnail text 0)"
  from finditer_sound [OF this]
  have "e \<in> set (rmatch code_pattern_thumbnail text i)" "i \<le> length text"
    by simp_all
  from thumbnail_match_shape(2-5) [OF this] show ?thesis
    by blast
next
  assume "(i, e) \<in> set (finditer code_pattern_video text 0)"
  from finditer_sound [OF this]
  have "e \<in> set (rmatch code_pattern_video text i)" "i \<le> length text"
    by simp_all
  from video_match_shape(2-5) [OF this] show ?thesis
    by blast
qed

subsection \<open>Characters of a match\<close>

lemma spaced_chars:
  "list_all is_token ts \<Longrightarrow> \<forall>c\<in>set (spaced ts). is_upper c \<or> c = CHR '' ''"
  by (induction ts) (auto simp: is_token_def list_all_iff)

lemma sublist_substring: "sublist (substring s i e) s"
proof -
  have "drop i s = substring s i e @ drop (e - i) (drop i s)"
    unfolding substring_def by (rule append_take_drop_id [symmetric])
  then have "take i s @ drop i s = take i s @ substring s i e @ drop (e - i) (drop i s)"
    by (rule arg_cong)
  then have "s = take i s @ substring s i e @ drop (e - i) (drop i s)"
    by (simp only: append_take_drop_id)
  then show ?thesis
    unfolding sublist_def by blast
qed

lemma thumbnail_findall_chars:
  assumes "m \<in> set (findall code_pattern_thumbnail text)"
  shows "sublist m text \<and> (\<forall>c\<in>set m. is_upper c \<or> c = CHR '' '')"
proof -
  from assms obtain i e where ie: "(i, e) \<in> set (finditer code_pattern_thumbnail text 0)"
    and m: "m = substring text i e"
    unfolding in_findall by blast
  from finditer_sound [OF ie] have "e \<in> set (rmatch code_pattern_thumbnail text i)" "i \<le> length text"
    by simp_all
  from thumbnail_match_shape(1) [OF this]
  obtain t ts where "m = t @ spaced ts" "is_token t" "list_all is_token ts"
    unfolding m by blast
  then have "\<forall>c\<in>set m. is_upper c \<or> c = CHR '' ''"
    using spaced_chars [of ts] by (auto simp: is_token_def list_all_iff)
  then show ?thesis
    unfolding m using sublist_substring by blast
qed

subsection \<open>Literal patterns and the slide indicator\<close>

lemma rmatch_lit:
  "rmatch (lit p) s i = (if prefix p (drop i s) then [i + length p] else [])"
proof (induction p arbitrary: i)
  case Nil
  then show ?case by simp
next
  case (Cons c cs)
  show ?case
  proof (cases "i < length s")
    case True
    then have d: "drop i s = s ! i # drop (Suc i) s"
      by (simp add: Cons_nth_drop_Suc)
    show ?thesis
      using True by (simp add: Cons.IH d)
  next
    case False
    then show ?thesis by simp
  qed
qed

lemma sublist_iff_prefix_drop:
  "sublist p s \<longleftrightarrow> (\<exists>i\<le>length s. prefix p (drop i s))"
proof
  assume "sublist p s"
  then obtain ps ss where s: "s = ps @ p @ ss"
    by (auto simp: sublist_def)
  have "prefix p (drop (length ps) s)" "length ps \<le> length s"
    by (simp_all add: s)
  then show "\<exists>i\<le>length s. prefix p (drop i s)"
    by blast
next
  assume "\<exists>i\<le>length s. prefix p (drop i s)"
  then obtain i ss where "drop i s = p @ ss"
    by (auto simp: prefix_def)
  then have "s = take i s @ p @ ss"
    by (metis append_take_drop_id)
  then show "sublist p s"
    unfolding sublist_def by blast
qed

lemma re_search_iff: "re_search r s \<longleftrightarrow> (\<exists>i\<le>length s. rmatch r s i \<noteq> [])"
proof -
  have "re_search r s \<longleftrightarrow> (\<exists>i\<in>set [0..<Suc (length s)]. rmatch r s i \<noteq> [])"
    unfolding re_search_def list_ex_iff ..
  also have "\<dots> \<longleftrightarrow> (\<exists>i\<le>length s. rmatch r s i \<noteq> [])"
    unfolding set_upt by (metis atLeastLessThan_iff less_Suc_eq_le zero_le)
  finally show ?thesis .
qed

lemma re_search_two_literals:
  "re_search (Alt (lit p) (lit q)) s \<longleftrightarrow> sublist p s \<or> sublist q s"
  unfolding re_search_iff sublist_iff_prefix_drop
  by (auto simp: rmatch_lit)

lemma is_indicator_slide_iff:
  "is_indicator_slide text \<longleftrightarrow>
     sublist ''attendance code'' (lower text) \<or> sublist ''clicker question'' (lower text)"
  unfolding is_indicator_slide_def slide_indicator_def
  by (rule re_search_two_literals)

subsection \<open>Splitting at the prompt and the pattern of the fallback\<close>

lemma split_aux_first:
  assumes "sep \<noteq> []"
    and "\<And>i. i < length pre \<Longrightarrow> \<not> prefix sep (drop i (pre @ sep @ rest))"
  shows "split_aux sep acc (pre @ sep @ rest) = (rev acc @ pre) # split_aux sep [] rest"
  using assms(2)
proof (induction pre arbitrary: acc)
  case Nil
  obtain c cs where sep: "sep = c # cs"
    using assms(1) by (cases sep) auto
  have "split_aux sep acc (c # cs @ rest) =
          rev acc # split_aux sep [] (drop (length sep - 1) (cs @ rest))"
    by (subst split_aux.simps(2)) (simp add: sep)
  then show ?case
    by (simp add: sep)
next
  case (Cons p pre)
  have "\<not> prefix sep (p # pre @ sep @ rest)"
    using Cons.prems [of 0] by simp
  then have "split_aux sep acc ((p # pre) @ sep @ rest) = split_aux sep (p # acc) (pre @ sep @ rest)"
    by simp
  also have "\<dots> = (rev (p # acc) @ pre) # split_aux sep [] rest"
  proof (rule Cons.IH)
    fix i assume "i < length pre"
    then show "\<not> prefix sep (drop i (pre @ sep @ rest))"
      using Cons.prems [of "Suc i"] by simp
  qed
  finally show ?case by simp
qed

lemma split_aux_nonempty: "split_aux sep acc s \<noteq> []"
  by (induction s arbitrary: acc) simp_all

lemma split_aux_absent: "\<not> sublist sep s \<Longrightarrow> split_aux sep acc s = [rev acc @ s]"
proof (induction s arbitrary: acc)
  case Nil
  then show ?case by simp
next
  case (Cons c cs)
  then have "\<not> prefix sep (c # cs)" "\<not> sublist sep cs"
    by (simp_all add: sublist_Cons_right)
  then show ?case
    using Cons.IH [of "c # acc"] by simp
qed

lemma fallback_lines_find:
  "fallback_lines ls =
     map_option strip
       (find (\<lambda>line. re_match fallback_line (strip line) \<and> 3 < length (strip line)) ls)"
  by (induction ls) simp_all

lemma newline_is_space: "is_upper_or_space (CHR 0x0A)"
  by (simp add: is_upper_or_space_def is_space_def)

lemma rmatch_plus_cls:
  "rmatch (Seq (Cls P) (Star (Cls P))) w 0 =
     (if w \<noteq> [] \<and> P (w ! 0) then rev [1..<Suc (1 + run P w 1)] else [])"
  by (simp add: rmatch_cls_seq rmatch_star_cls)

lemma in_rmatch_eos:
  "e \<in> set (rmatch Eos w j) \<longleftrightarrow>
     e = j \<and> (j = length w \<or> (Suc j = length w \<and> w ! j = CHR 0x0A))"
  by auto

lemma re_match_fallback_line_iff:
  "re_match fallback_line w \<longleftrightarrow> w \<noteq> [] \<and> list_all is_upper_or_space w"
proof -
  let ?P = is_upper_or_space
  have m: "re_match fallback_line w \<longleftrightarrow>
      (\<exists>j\<in>set (rmatch (Seq (Cls ?P) (Star (Cls ?P))) w 0).
         j = length w \<or> (Suc j = length w \<and> w ! j = CHR 0x0A))"
  proof -
    have "rmatch fallback_line w 0 = rmatch (Seq (Seq (Cls ?P) (Star (Cls ?P))) Eos) w 0"
      unfolding fallback_line_def by (subst rmatch.simps(3)) simp
    then have "re_match fallback_line w \<longleftrightarrow>
        (\<exists>e. e \<in> set (rmatch (Seq (Seq (Cls ?P) (Star (Cls ?P))) Eos) w 0))"
      unfolding re_match_def by (simp only: ex_in_conv set_empty)
    also have "\<dots> \<longleftrightarrow> (\<exists>j\<in>set (rmatch (Seq (Cls ?P) (Star (Cls ?P))) w 0).
         \<exists>e. e \<in> set (rmatch Eos w j))"
      unfolding set_rmatch_seq [of "Seq (Cls ?P) (Star (Cls ?P))" Eos] by blast
    also have "\<dots> \<longleftrightarrow> (\<exists>j\<in>set (rmatch (Seq (Cls ?P) (Star (Cls ?P))) w 0).
         j = length w \<or> (Suc j = length w \<and> w ! j = CHR 0x0A))"
      unfolding in_rmatch_eos by blast
    finally show ?thesis .
  qed
  show ?thesis
  proof
    assume "re_match fallback_line w"
    then obtain j where j: "j \<in> set (rmatch (Seq (Cls ?P) (Star (Cls ?P))) w 0)"
      and e: "j = length w \<or> (Suc j = length w \<and> w ! j = CHR 0x0A)"
      unfolding m by blast
    from j have w: "w \<noteq> []" "?P (w ! 0)" and jr: "1 \<le> j" "j \<le> 1 + run ?P w 1"
      unfolding rmatch_plus_cls by (auto split: if_splits)
    have "?P (w ! k)" if "k < length w" for k
    proof -
      consider "k = 0" | "1 \<le> k" "k < j" | "j \<le> k" using jr by linarith
      then show ?thesis
      proof cases
        case 1
        then show ?thesis using w(2) by simp
      next
        case 2
        then show ?thesis
          using run_all [of 1 k ?P w] jr(2) by simp
      next
        case 3
        then have "k = j" "w ! j = CHR 0x0A"
          using e that by auto
        then show ?thesis
          using newline_is_space by simp
      qed
    qed
    then show "w \<noteq> [] \<and> list_all ?P w"
      using w(1) by (simp add: list_all_length)
  next
    assume a: "w \<noteq> [] \<and> list_all ?P w"
    then have all: "\<forall>c\<in>set (drop 1 w). ?P c"
      by (auto simp: list_all_iff dest: in_set_dropD)
    have "takeWhile ?P (drop 1 w) = drop 1 w"
      using all by (rule takeWhile_eq_all_conv [THEN iffD2])
    then have r: "run ?P w 1 = length w - 1"
      by (simp only: length_drop)
    have "?P (w ! 0)"
      using a by (simp add: list_all_length)
    then have "length w \<in> set (rmatch (Seq (Cls ?P) (Star (Cls ?P))) w 0)"
      unfolding rmatch_plus_cls using a r by (cases w) simp_all
    then show "re_match fallback_line w"
      unfolding m by blast
  qed
qed

lemma prompt_has_indicator: "sublist ''attendance code'' (lower prompt)"
  by code_simp

lemma sublist_trans: "sublist xs ys \<Longrightarrow> sublist ys zs \<Longrightarrow> sublist xs zs"
  by (rule sublist_order.order.trans)

lemma prompt_is_indicator:
  assumes "sublist prompt text"
  shows "is_indicator_slide text"
proof -
  have "sublist (lower prompt) (lower text)"
    unfolding lower_def using assms by (rule map_mono_sublist)
  then have "sublist ''attendance code'' (lower text)"
    using prompt_has_indicator sublist_trans by blast
  then show ?thesis
    by (simp add: is_indicator_slide_iff)
qed

lemma prompt_nonempty: "prompt \<noteq> []"
  by (simp add: prompt_def)

lemma fallback_after_prompt:
  assumes "text = pre @ prompt @ rest"
    and "\<forall>i<length pre. \<not> prefix prompt (drop i text)"
  shows "fallback text =
           map_option (\<lambda>line. [strip line])
             (find (\<lambda>line. list_all is_upper_or_space (strip line) \<and> 3 < length (strip line))
                (take 5 (split newline (hd (split prompt rest)))))"
proof -
  have sub: "sublist prompt text"
    unfolding assms(1) by (rule sublist_appendI)
  have "split prompt text = pre # split prompt rest"
    unfolding split_def assms(1)
    using split_aux_first [OF prompt_nonempty, of pre rest "[]"] assms(2) [unfolded assms(1)]
    by simp
  moreover obtain a more where ar: "split prompt rest = a # more"
    using split_aux_nonempty [of prompt "[]" rest] by (cases "split prompt rest") (auto simp: split_def)
  ultimately have sp: "split prompt text = pre # a # more" and hd: "hd (split prompt rest) = a"
    by simp_all
  have acc: "(\<lambda>line. re_match fallback_line (strip line) \<and> 3 < length (strip line)) =
      (\<lambda>line. list_all is_upper_or_space (strip line) \<and> 3 < length (strip line))"
    by (auto simp: re_match_fallback_line_iff)
  have "fallback text =
      (case fallback_lines (take 5 (split newline a)) of Some code \<Rightarrow> Some [code] | None \<Rightarrow> None)"
    using sub by (simp add: fallback_def sp)
  also have "\<dots> = map_option (\<lambda>line. [strip line])
             (find (\<lambda>line. list_all is_upper_or_space (strip line) \<and> 3 < length (strip line))
                (take 5 (split newline a)))"
    unfolding fallback_lines_find acc
    by (simp add: option.map_comp comp_def split: option.splits)
  finally show ?thesis
    unfolding hd .
qed

subsection \<open>The thumbnail task\<close>

lemma save_all_none:
  assumes "\<And>name. write_file E name = None"
  shows "save_all E names = None"
  by (induction names) (simp_all add: assms)

lemma download_caught:
  "try_download_and_process_image E d = Inl e \<Longrightarrow> download_and_process_image E d = None"
  by (simp add: download_and_process_image_def)

lemma fetch_error_raises:
  "fetch E url = Inl e \<Longrightarrow> try_download_and_process_image E (url, timestamp) = Inl e"
  by (simp add: try_download_and_process_image_def)

lemma download_no_codes:
  assumes "fetch E url = Inr (200, content)" and "ocr E content = Inr text"
    and "thumbnail_codes text = None"
  shows "download_and_process_image E (url, timestamp) = None"
  using assms
  by (simp add: download_and_process_image_def try_download_and_process_image_def Let_def
      split: option.splits)

lemma download_codes:
  assumes "fetch E url = Inr (200, content)" and "\<And>name. write_file E name = None"
    and "ocr E content = Inr text" and "thumbnail_codes text = Some codes"
  shows "download_and_process_image E (url, timestamp) =
           Some (timestamp, codes,
             ''thumbnails/thumbnail_'' @ replace_char CHR '':'' CHR ''_'' timestamp @ ''.jpg'')"
  using assms(1,3,4)
  by (simp add: download_and_process_image_def try_download_and_process_image_def Let_def
      assms(2) save_all_none [of E, OF assms(2)])

subsection \<open>Recognition on the texts of the scenarios\<close>

lemma video_codes_question: "video_codes ''clicker question ... QRST UVWX'' = Some [''QRST UVWX'']"
  by code_simp

lemma video_codes_noise: "video_codes ''~~ noise ~~'' = None"
  by code_simp

lemma thumbnail_codes_a: "thumbnail_codes ''attendance code ABCD EFGH'' = Some [''ABCD EFGH'']"
  by code_simp

lemma thumbnail_codes_b: "thumbnail_codes ''Attendance Code: WXYZ'' = Some [''WXYZ'']"
  by code_simp

lemma thumbnail_codes_c: "thumbnail_codes ''lecture 3, unrelated'' = None"
  by code_simp

lemma thumbnail_env_io:
  "fetch thumbnail_env ''a.jpg'' = Inr (200, ''attendance code ABCD EFGH'')"
  "fetch thumbnail_env ''b.jpg'' = Inr (200, ''Attendance Code: WXYZ'')"
  "fetch thumbnail_env ''c.jpg'' = Inr (200, ''lecture 3, unrelated'')"
  "fetch thumbnail_env ''missing.jpg'' = Inl FetchError"
  "write_file thumbnail_env name = None"
  "ocr thumbnail_env content = Inr content"
  by (simp_all add: thumbnail_env_def)

lemma download_thumbnail_env:
  "download_and_process_image thumbnail_env (''a.jpg'', ''0:05'') =
     Some (''0:05'', [''ABCD EFGH''], ''thumbnails/thumbnail_0_05.jpg'')"
  "download_and_process_image thumbnail_env (''b.jpg'', ''1:05'') =
     Some (''1:05'', [''WXYZ''], ''thumbnails/thumbnail_1_05.jpg'')"
  "download_and_process_image thumbnail_env (''c.jpg'', ''2:05'') = None"
proof -
  show "download_and_process_image thumbnail_env (''a.jpg'', ''0:05'') =
     Some (''0:05'', [''ABCD EFGH''], ''thumbnails/thumbnail_0_05.jpg'')"
    using download_codes [OF thumbnail_env_io(1,5,6) thumbnail_codes_a, of "''0:05''"]
    by (simp add: replace_char_def)
  show "download_and_process_image thumbnail_env (''b.jpg'', ''1:05'') =
     Some (''1:05'', [''WXYZ''], ''thumbnails/thumbnail_1_05.jpg'')"
    using download_codes [OF thumbnail_env_io(2,5,6) thumbnail_codes_b, of "''1:05''"]
    by (simp add: replace_char_def)
  show "download_and_process_image thumbnail_env (''c.jpg'', ''2:05'') = None"
    by (rule download_no_codes [OF thumbnail_env_io(3,6) thumbnail_codes_c])
qed

lemma pool_results_thumbnail_env:
  "pool_results thumbnail_env thumbnail_urls =
     [(''0:05'', [''ABCD EFGH''], ''thumbnails/thumbnail_0_05.jpg''),
      (''1:05'', [''WXYZ''], ''thumbnails/thumbnail_1_05.jpg'')]"
  unfolding pool_results_def thumbnail_urls_def
  by (simp add: map_filter_simps download_thumbnail_env)

lemma pool_results_repeat_env:
  "pool_results repeat_env [(''c.jpg'', ''2:05'')] = []"
proof -
  have "download_and_process_image repeat_env (''c.jpg'', ''2:05'') = None"
    by (rule download_no_codes [OF _ _ thumbnail_codes_c]) (simp_all add: repeat_env_def)
  then show ?thesis
    unfolding pool_results_def by (simp add: map_filter_simps)
qed

lemma video_scan_repeat_env:
  "video_scan repeat_env (timestamps repeat_env) =
     ([Seek_and_capture 0, Video_ocr ''0:00'', Seek_and_capture 60, Video_ocr ''1:00''],
      Inr [(''0:00'', [''QRST UVWX''], ''video_frames/frame_0_00.png''),
           (''1:00'', [''QRST UVWX''], ''video_frames/frame_1_00.png'')])"
proof -
  have "save_all repeat_env names = None" for names
    by (rule save_all_none) (simp add: repeat_env_def)
  then show ?thesis
    by (simp add: repeat_env_def video_codes_question replace_char_def)
qed

lemma filtered_video_welcome: "filtered_matches code_pattern_video welcome_slide = []"
  by code_simp

lemma thumbnail_codes_welcome: "thumbnail_codes welcome_slide = Some [''WELCOME'']"
  by code_simp

lemma sublist_welcome:
  "sublist ''attendance code'' (lower welcome_slide) \<and> sublist prompt welcome_slide"
  by code_simp

lemma thumbnail_codes_twice:
  "thumbnail_codes ''attendance code ABCD, ABCD'' = Some [''ABCD'', ''ABCD'']"
  by code_simp

lemma no_indicator_in_noise:
  "\<not> sublist ''attendance code'' (lower ''~~ noise ~~'') \<and>
   \<not> sublist ''clicker question'' (lower ''~~ noise ~~'')"
  by code_simp

lemma finditer_lut:
  "finditer code_pattern_thumbnail lut_text 0 = [(6, 16), (18, 21)]"
  "finditer code_pattern_video lut_text 0 = [(6, 16)]"
  by code_simp+

lemma findall_lut:
  "findall code_pattern_thumbnail lut_text = [''LUT DESERT'', ''CAT'']"
  "findall code_pattern_video lut_text = [''LUT DESERT'']"
  by code_simp+

lemma split_lut: "split '' '' ''LUT DESERT'' = [''LUT'', ''DESERT'']" "split '' '' ''CAT'' = [''CAT'']"
  by code_simp+

lemma tokens_lut: "is_token ''CAT''" "is_token ''LUT''" "is_token ''DESERT''"
  by code_simp+

lemma context_lut:
  "is_context (lut_text ! 4)" "\<not> is_context (lut_text ! 5)" "\<not> is_context (lut_text ! 16)"
  "\<not> is_context (lut_text ! 17)" "length lut_text = 21"
  by code_simp+

lemma spelled_slide_eval:
  "sublist ''attendance code'' (lower spelled_slide)"
  "findall code_pattern_thumbnail spelled_slide = []"
  "filtered_matches code_pattern_thumbnail spelled_slide = []"
  "thumbnail_codes spelled_slide = Some [''A B C D'']"
  "fallback spelled_slide = Some [''A B C D'']"
  by code_simp+

lemma twice_eval:
  "findall code_pattern_thumbnail ''attendance code ABCD, ABCD'' = [''ABCD'', ''ABCD'']"
  "filtered_matches code_pattern_thumbnail ''attendance code ABCD, ABCD'' = [''ABCD'', ''ABCD'']"
  by code_simp+

lemma abcd_efgh_eval:
  "sublist ''attendance code'' (lower ''attendance code ABCD EFGH'')"
  "findall code_pattern_thumbnail ''attendance code ABCD EFGH'' = [''ABCD EFGH'']"
  "filtered_matches code_pattern_thumbnail ''attendance code ABCD EFGH'' = [''ABCD EFGH'']"
  by code_simp+

lemma mixed_slide_eval:
  "sublist ''attendance code'' (lower mixed_slide)"
  "findall code_pattern_thumbnail mixed_slide = [''LUT DESERT'', ''JOIN'']"
  "filtered_matches code_pattern_thumbnail mixed_slide = [''LUT DESERT'']"
  by code_simp+

lemma lowercase_slide_eval:
  "filtered_matches code_pattern_thumbnail lowercase_slide = []"
  "sublist prompt lowercase_slide"
  "take 5 (split newline (drop (length prompt) lowercase_slide)) = ['''', ''abcd'']"
  "strip ''abcd'' = ''abcd''"
  "thumbnail_codes lowercase_slide = None"
  by code_simp+

lemma abcd_letters: "list_all (\<lambda>c. is_lower c \<or> is_upper c \<or> c = CHR '' '') ''abcd''"
  by (simp add: is_lower_def)

lemma quiz_slide_eval:
  "filtered_matches code_pattern_thumbnail quiz_slide = []"
  "quiz_slide = ''Quiz 2. '' @ prompt @ '': '' @ newline @ ''  WELCOME TO COMP  '' @ newline @ ''JOIN US''"
  "list_all (\<lambda>i. \<not> prefix prompt (drop i quiz_slide)) [0..<length ''Quiz 2. '']"
  "\<not> sublist prompt ('': '' @ newline @ ''  WELCOME TO COMP  '' @ newline @ ''JOIN US'')"
  "split newline ('': '' @ newline @ ''  WELCOME TO COMP  '' @ newline @ ''JOIN US'') =
     ['': '', ''  WELCOME TO COMP  '', ''JOIN US'']"
  "strip ''  WELCOME TO COMP  '' = ''WELCOME TO COMP''"
  "thumbnail_codes quiz_slide = Some [''WELCOME TO COMP'']"
  by code_simp+

lemma all_less_upt: "(\<forall>i<n. P i) \<longleftrightarrow> list_all P [0..<n]"
  by (auto simp: list_all_iff)

subsection \<open>Recognition\<close>

text \<open>
  Claim C2. The primary pattern differs between the phases. Every match of the pattern of
  the video phase consists of at least two uppercase alphabetic tokens of length at least 2
  that single spaces separate; every match of the pattern of the thumbnail phase consists of
  at least one such token, and a text that is a single such token is matched by the
  thumbnail pattern and not by the video pattern. No match of either pattern is
  immediately preceded or followed by a letter, a digit, a colon, a slash or a period.
\<close>

theorem code_patterns_token_counts:
  "(\<forall>m\<in>set (findall code_pattern_video text).
       2 \<le> length (split '' '' m) \<and> list_all is_token (split '' '' m)) \<and>
   (\<forall>m\<in>set (findall code_pattern_thumbnail text).
       1 \<le> length (split '' '' m) \<and> list_all is_token (split '' '' m)) \<and>
   (is_token t \<longrightarrow> findall code_pattern_thumbnail t = [t] \<and> findall code_pattern_video t = []) \<and>
   (\<forall>(i, e)\<in>set (finditer code_pattern_thumbnail text 0) \<union> set (finditer code_pattern_video text 0).
       i < e \<and> e \<le> length text \<and> \<not> (0 < i \<and> is_context (text ! (i - 1)))
         \<and> \<not> (e < length text \<and> is_context (text ! e)))"
proof -
  have video: "\<forall>m\<in>set (findall code_pattern_video text).
       2 \<le> length (split '' '' m) \<and> list_all is_token (split '' '' m)"
    using video_findall_shape by blast
  have thumbnail: "\<forall>m\<in>set (findall code_pattern_thumbnail text).
       1 \<le> length (split '' '' m) \<and> list_all is_token (split '' '' m)"
    using thumbnail_findall_shape by blast
  have single: "is_token t \<longrightarrow>
      findall code_pattern_thumbnail t = [t] \<and> findall code_pattern_video t = []"
    using single_token_findall by blast
  have around: "\<forall>(i, e)\<in>set (finditer code_pattern_thumbnail text 0) \<union> set (finditer code_pattern_video text 0).
       i < e \<and> e \<le> length text \<and> \<not> (0 < i \<and> is_context (text ! (i - 1)))
         \<and> \<not> (e < length text \<and> is_context (text ! e))"
  proof (intro ballI)
    fix x
    assume x: "x \<in> set (finditer code_pattern_thumbnail text 0) \<union> set (finditer code_pattern_video text 0)"
    obtain i e where ie: "x = (i, e)" by (cases x)
    have "(i, e) \<in> set (finditer code_pattern_thumbnail text 0)
             \<or> (i, e) \<in> set (finditer code_pattern_video text 0)"
      using x unfolding ie by blast
    from finditer_lookaround [OF this]
    show "case x of (i, e) \<Rightarrow> i < e \<and> e \<le> length text \<and> \<not> (0 < i \<and> is_context (text ! (i - 1)))
         \<and> \<not> (e < length text \<and> is_context (text ! e))"
      unfolding ie prod.case .
  qed
  show ?thesis
    by (intro conjI video thumbnail single around)
qed

theorem code_patterns_token_counts_witness:
  "findall code_pattern_video lut_text = [''LUT DESERT''] \<and>
   findall code_pattern_thumbnail lut_text = [''LUT DESERT'', ''CAT''] \<and>
   split '' '' ''LUT DESERT'' = [''LUT'', ''DESERT''] \<and>
   split '' '' ''CAT'' = [''CAT''] \<and>
   is_token ''LUT'' \<and> is_token ''DESERT'' \<and> is_token ''CAT'' \<and>
   findall code_pattern_thumbnail ''CAT'' = [''CAT''] \<and>
   findall code_pattern_video ''CAT'' = [] \<and>
   finditer code_pattern_thumbnail lut_text 0 = [(6, 16), (18, 21)] \<and>
   finditer code_pattern_video lut_text 0 = [(6, 16)] \<and>
   is_context (lut_text ! 4) \<and> \<not> is_context (lut_text ! 5) \<and> \<not> is_context (lut_text ! 16) \<and>
   \<not> is_context (lut_text ! 17) \<and> length lut_text = 21"
  using code_patterns_token_counts [of lut_text "''CAT''"]
  by (simp add: findall_lut finditer_lut split_lut tokens_lut context_lut)

text \<open>
  Claim C3. For every text that contains ``attendance code'', compared without regard to
  case, and that has a match of the primary pattern without an exclusion substring, the
  result of the recognizer is the list of the matches of the primary pattern without every
  match whose lowercase form contains ``http'', ``www'', ``join'' or ``com''; when no match
  contains an exclusion substring, that is the full list of matches. Each surviving match
  is returned as found in the text, made of uppercase letters and spaces. The same list is
  what the video loop appends for its own pattern.
\<close>

theorem surviving_matches_returned:
  assumes "sublist ''attendance code'' (lower text)"
    and "filtered_matches code_pattern_thumbnail text \<noteq> []"
  shows "thumbnail_codes text = Some (filtered_matches code_pattern_thumbnail text) \<and>
    set (filtered_matches code_pattern_thumbnail text) =
      {m \<in> set (findall code_pattern_thumbnail text).
         \<forall>url_term\<in>set url_terms. \<not> sublist url_term (lower m)} \<and>
    (\<forall>m\<in>set (filtered_matches code_pattern_thumbnail text).
       sublist m text \<and> (\<forall>c\<in>set m. is_upper c \<or> c = CHR '' '')) \<and>
    ((\<forall>m\<in>set (findall code_pattern_thumbnail text).
        \<forall>url_term\<in>set url_terms. \<not> sublist url_term (lower m))
       \<longrightarrow> thumbnail_codes text = Some (findall code_pattern_thumbnail text)) \<and>
    (filtered_matches code_pattern_video text \<noteq> []
       \<longrightarrow> video_codes text = Some (filtered_matches code_pattern_video text))"
proof -
  have slide: "is_indicator_slide text"
    using assms(1) by (simp add: is_indicator_slide_iff)
  then have result: "thumbnail_codes text = Some (filtered_matches code_pattern_thumbnail text)"
    using assms(2) by (simp add: thumbnail_codes_def Let_def)
  have survivors: "set (filtered_matches code_pattern_thumbnail text) =
      {m \<in> set (findall code_pattern_thumbnail text).
         \<forall>url_term\<in>set url_terms. \<not> sublist url_term (lower m)}"
    unfolding filtered_matches_def set_filter list_ex_iff by blast
  have as_found: "\<forall>m\<in>set (filtered_matches code_pattern_thumbnail text).
       sublist m text \<and> (\<forall>c\<in>set m. is_upper c \<or> c = CHR '' '')"
    using thumbnail_findall_chars unfolding filtered_matches_def set_filter by blast
  have full: "(\<forall>m\<in>set (findall code_pattern_thumbnail text).
        \<forall>url_term\<in>set url_terms. \<not> sublist url_term (lower m))
       \<longrightarrow> thumbnail_codes text = Some (findall code_pattern_thumbnail text)"
  proof
    assume "\<forall>m\<in>set (findall code_pattern_thumbnail text).
        \<forall>url_term\<in>set url_terms. \<not> sublist url_term (lower m)"
    then have "filtered_matches code_pattern_thumbnail text = findall code_pattern_thumbnail text"
      unfolding filtered_matches_def list_ex_iff by (intro filter_True) blast
    then show "thumbnail_codes text = Some (findall code_pattern_thumbnail text)"
      using result by simp
  qed
  have video: "filtered_matches code_pattern_video text \<noteq> []
       \<longrightarrow> video_codes text = Some (filtered_matches code_pattern_video text)"
    using slide by (simp add: video_codes_def Let_def)
  show ?thesis
    by (intro conjI result survivors as_found full video)
qed

theorem surviving_matches_returned_witness:
  "sublist ''attendance code'' (lower ''attendance code ABCD EFGH'') \<and>
   findall code_pattern_thumbnail ''attendance code ABCD EFGH'' = [''ABCD EFGH''] \<and>
   filtered_matches code_pattern_thumbnail ''attendance code ABCD EFGH'' = [''ABCD EFGH''] \<and>
   thumbnail_codes ''attendance code ABCD EFGH'' = Some [''ABCD EFGH''] \<and>
   sublist ''attendance code'' (lower mixed_slide) \<and>
   findall code_pattern_thumbnail mixed_slide = [''LUT DESERT'', ''JOIN''] \<and>
   filtered_matches code_pattern_thumbnail mixed_slide = [''LUT DESERT''] \<and>
   thumbnail_codes mixed_slide = Some [''LUT DESERT''] \<and>
   sublist ''LUT DESERT'' mixed_slide"
proof -
  have "filtered_matches code_pattern_thumbnail ''attendance code ABCD EFGH'' \<noteq> []"
    by (simp add: abcd_efgh_eval)
  from surviving_matches_returned [OF abcd_efgh_eval(1) this]
  have plain: "thumbnail_codes ''attendance code ABCD EFGH'' =
      Some (filtered_matches code_pattern_thumbnail ''attendance code ABCD EFGH'')"
    by blast
  have "filtered_matches code_pattern_thumbnail mixed_slide \<noteq> []"
    by (simp add: mixed_slide_eval)
  from surviving_matches_returned [OF mixed_slide_eval(1) this]
  have mixed: "thumbnail_codes mixed_slide = Some (filtered_matches code_pattern_thumbnail mixed_slide)"
    "\<forall>m\<in>set (filtered_matches code_pattern_thumbnail mixed_slide). sublist m mixed_slide
        \<and> (\<forall>c\<in>set m. is_upper c \<or> c = CHR '' '')"
    by blast+
  then have "sublist ''LUT DESERT'' mixed_slide"
    by (simp add: mixed_slide_eval)
  then show ?thesis
    using plain mixed(1) by (simp add: mixed_slide_eval abcd_efgh_eval)
qed

text \<open>
  Claim C4 says that the fallback accepts the first of the next five lines that is made of
  letters and spaces only and whose trimmed length exceeds 3. The pattern of the code is
  \<^verbatim>\<open>^[A-Z\s]+$\<close>: a line of lowercase letters is made of letters only, and is not
  accepted.
\<close>

theorem lowercase_line_not_accepted:
  "filtered_matches code_pattern_thumbnail lowercase_slide = [] \<and>
   sublist prompt lowercase_slide \<and>
   take 5 (split newline (drop (length prompt) lowercase_slide)) = ['''', ''abcd''] \<and>
   list_all (\<lambda>c. is_lower c \<or> is_upper c \<or> c = CHR '' '') ''abcd'' \<and>
   3 < length (strip ''abcd'') \<and>
   thumbnail_codes lowercase_slide = None"
  using abcd_letters by (simp add: lowercase_slide_eval)

text \<open>
  Claim C4, amended. For every text on which the primary pattern and the filter leave no
  match and which contains the phrase ``Insert the following attendance code'', the
  thumbnail task takes the text after the first occurrence of the phrase, up to the next
  occurrence if there is one, cuts it at the newlines and inspects the first five pieces,
  the first of which is the rest of the line of the phrase. It accepts the first piece
  whose stripped form consists of uppercase letters A to Z and whitespace only and is
  longer than 3 characters, and returns that stripped form as the single code; if none of
  the five pieces is accepted, no code is produced.
\<close>

theorem fallback_takes_first_accepted_line:
  assumes "filtered_matches code_pattern_thumbnail text = []"
    and "text = pre @ prompt @ rest"
    and "\<forall>i<length pre. \<not> prefix prompt (drop i text)"
  shows "thumbnail_codes text =
           map_option (\<lambda>line. [strip line])
             (find (\<lambda>line. list_all is_upper_or_space (strip line) \<and> 3 < length (strip line))
                (take 5 (split newline (hd (split prompt rest))))) \<and>
         (\<not> sublist prompt rest \<longrightarrow> hd (split prompt rest) = rest)"
proof -
  have "sublist prompt text"
    unfolding assms(2) by (rule sublist_appendI)
  then have "is_indicator_slide text"
    by (rule prompt_is_indicator)
  then have "thumbnail_codes text = fallback text"
    using assms(1) by (simp add: thumbnail_codes_def)
  moreover have "\<not> sublist prompt rest \<longrightarrow> hd (split prompt rest) = rest"
    by (simp add: split_def split_aux_absent)
  ultimately show ?thesis
    using fallback_after_prompt [OF assms(2,3)] by simp
qed

theorem fallback_takes_first_accepted_line_witness:
  "filtered_matches code_pattern_thumbnail quiz_slide = [] \<and>
   quiz_slide = ''Quiz 2. '' @ prompt @ '': '' @ newline @ ''  WELCOME TO COMP  '' @ newline @ ''JOIN US'' \<and>
   list_all (\<lambda>i. \<not> prefix prompt (drop i quiz_slide)) [0..<length ''Quiz 2. ''] \<and>
   split newline ('': '' @ newline @ ''  WELCOME TO COMP  '' @ newline @ ''JOIN US'') =
     ['': '', ''  WELCOME TO COMP  '', ''JOIN US''] \<and>
   thumbnail_codes quiz_slide = Some [''WELCOME TO COMP'']"
proof -
  have first: "\<forall>i<length ''Quiz 2. ''. \<not> prefix prompt (drop i quiz_slide)"
    using quiz_slide_eval(3) by (simp only: all_less_upt)
  from fallback_takes_first_accepted_line [OF quiz_slide_eval(1,2) first]
  show ?thesis
    using quiz_slide_eval by simp
qed

text \<open>
  Claim C6. For every OCR text that contains neither ``attendance code'' nor ``clicker
  question'' when compared without regard to case, recognition gives no codes in both
  phases: the thumbnail task returns \<^verbatim>\<open>None\<close> and the video loop appends nothing. Both
  are ordinary results, not exceptions: the task of a fetched thumbnail with such a text
  ends with \<^verbatim>\<open>None\<close>, and the loop over a captured frame with such a text ends
  normally with no result. Empty and garbled texts are such texts.
\<close>

theorem no_indicator_no_codes:
  assumes "\<not> sublist ''attendance code'' (lower text)"
    and "\<not> sublist ''clicker question'' (lower text)"
  shows "thumbnail_codes text = None \<and> video_codes text = None \<and>
    (fetch E url = Inr (200, content) \<and> ocr E content = Inr text
       \<longrightarrow> download_and_process_image E (url, timestamp) = None) \<and>
    (capture E seconds = Inr screenshot \<and> ocr E screenshot = Inr text
       \<longrightarrow> video_scan E [(seconds, time_str)] =
             ([Seek_and_capture seconds, Video_ocr time_str], Inr []))"
proof -
  have none: "thumbnail_codes text = None" "video_codes text = None"
    using assms by (simp_all add: thumbnail_codes_def video_codes_def is_indicator_slide_iff)
  then show ?thesis
    using download_no_codes [of E url content "text" timestamp] by simp
qed

theorem no_indicator_no_codes_witness:
  "\<not> sublist ''attendance code'' (lower ''~~ noise ~~'') \<and>
   \<not> sublist ''clicker question'' (lower ''~~ noise ~~'') \<and>
   thumbnail_codes ''~~ noise ~~'' = None \<and> video_codes ''~~ noise ~~'' = None \<and>
   thumbnail_codes [] = None \<and> video_codes [] = None \<and>
   capture video_only_env 0 = Inr ''~~ noise ~~'' \<and>
   ocr video_only_env ''~~ noise ~~'' = Inr ''~~ noise ~~'' \<and>
   video_scan video_only_env [(0, ''0:00'')] = ([Seek_and_capture 0, Video_ocr ''0:00''], Inr [])"
proof -
  have noise: "\<not> sublist ''attendance code'' (lower ''~~ noise ~~'')"
    "\<not> sublist ''clicker question'' (lower ''~~ noise ~~'')"
    using no_indicator_in_noise by simp_all
  have empty: "\<not> sublist ''attendance code'' (lower [])"
    "\<not> sublist ''clicker question'' (lower [])"
    by (simp_all add: lower_def)
  have io: "capture video_only_env 0 = Inr ''~~ noise ~~''"
    "ocr video_only_env ''~~ noise ~~'' = Inr ''~~ noise ~~''"
    by (simp_all add: video_only_env_def)
  note at_noise = no_indicator_no_codes [OF noise, where E = video_only_env and seconds = 0
      and screenshot = "''~~ noise ~~''" and time_str = "''0:00''"]
  have at_empty: "thumbnail_codes [] = None \<and> video_codes [] = None"
    using no_indicator_no_codes [OF empty, where E = video_only_env] by blast
  show ?thesis
    using at_noise at_empty noise io by blast
qed

text \<open>
  Claim C10. The video phase applies the pattern of two or more tokens only and has no
  fallback: for every frame of the video on whose OCR text that pattern leaves no code
  after the filter, also when the text holds ``Insert the following attendance code''
  followed by a line that the fallback of the thumbnail task accepts, the frame yields no
  codes. The fallback is part of the thumbnail task alone.
\<close>

theorem video_phase_has_no_fallback:
  assumes "filtered_matches code_pattern_video text = []"
  shows "video_codes text = None \<and>
    (capture E seconds = Inr screenshot \<and> ocr E screenshot = Inr text
       \<longrightarrow> snd (video_scan E [(seconds, time_str)]) = Inr [])"
  using assms by (simp add: video_codes_def)

theorem video_phase_has_no_fallback_witness:
  "sublist ''attendance code'' (lower welcome_slide) \<and> sublist prompt welcome_slide \<and>
   thumbnail_codes welcome_slide = Some [''WELCOME''] \<and>
   filtered_matches code_pattern_video welcome_slide = [] \<and>
   video_codes welcome_slide = None \<and>
   capture welcome_env 0 = Inr welcome_slide \<and>
   ocr welcome_env welcome_slide = Inr welcome_slide \<and>
   snd (video_scan welcome_env [(0, ''0:00'')]) = Inr []"
proof -
  have io: "capture welcome_env 0 = Inr welcome_slide \<and>
      ocr welcome_env welcome_slide = Inr welcome_slide"
    by (simp add: welcome_env_def)
  show ?thesis
    using video_phase_has_no_fallback
        [OF filtered_video_welcome, of welcome_env 0 welcome_slide "''0:00''"]
      io sublist_welcome thumbnail_codes_welcome filtered_video_welcome
    by simp
qed

text \<open>
  Claim C5 says that the codes returned by one recognition pass hold no duplicate. The
  pass returns the list of the filtered matches of \<^verbatim>\<open>re.findall\<close>, which has one entry
  for each occurrence: a code that the text shows twice is returned twice.
\<close>

theorem recognition_repeats_code:
  "thumbnail_codes ''attendance code ABCD, ABCD'' = Some [''ABCD'', ''ABCD'']
   \<and> \<not> distinct [''ABCD'', ''ABCD'']"
  by (simp add: thumbnail_codes_twice)

lemma count_list_filter:
  "count_list (filter P xs) c = (if P c then count_list xs c else 0)"
  by (induction xs) auto

lemma fallback_singleton: "fallback text = Some codes \<Longrightarrow> length codes = 1"
  by (auto simp: fallback_def split: if_splits list.splits option.splits)

lemma video_codes_Some:
  assumes "video_codes text = Some codes"
  shows "codes = filtered_matches code_pattern_video text" and "codes \<noteq> []"
  using assms by (auto simp: video_codes_def Let_def split: if_splits)

lemma thumbnail_codes_Some:
  assumes "thumbnail_codes text = Some codes"
  shows "if filtered_matches code_pattern_thumbnail text \<noteq> []
         then codes = filtered_matches code_pattern_thumbnail text
         else fallback text = Some codes \<and> length codes = 1"
  using assms by (auto simp: thumbnail_codes_def Let_def fallback_singleton split: if_splits)

text \<open>
  Claim C5, amended. The list of codes that one recognition pass returns is not empty. It
  is the list of the matches of the primary pattern that the filter leaves, in the order
  of the text and with one entry for each occurrence of a match, so that a code that
  occurs several times is returned several times; or, in the thumbnail task when the
  filter leaves no match, it is the single code of the fallback. The duplicates disappear
  only when the controller adds the list to the set \<open>found_codes\<close>: after the codes of
  one pass have been added to the empty set, the set holds each of them exactly once.
\<close>

theorem pass_codes_once_in_found_codes:
  assumes "thumbnail_codes text = Some codes \<or> video_codes text = Some codes"
  shows "codes \<noteq> [] \<and>
    (video_codes text = Some codes \<longrightarrow> codes = filtered_matches code_pattern_video text) \<and>
    (thumbnail_codes text = Some codes \<longrightarrow>
       (if filtered_matches code_pattern_thumbnail text \<noteq> []
        then codes = filtered_matches code_pattern_thumbnail text
        else fallback text = Some codes \<and> length codes = 1)) \<and>
    (\<forall>code_pattern code.
       count_list (filtered_matches code_pattern text) code =
         (if list_ex (\<lambda>url_term. sublist url_term (lower code)) url_terms then 0
          else count_list (findall code_pattern text) code)) \<and>
    distinct (add_results [(timestamp, codes, image_file)] []) \<and>
    set (add_results [(timestamp, codes, image_file)] []) = set codes"
proof -
  have nonempty: "codes \<noteq> []"
    using assms
  proof
    assume t: "thumbnail_codes text = Some codes"
    show ?thesis
    proof (cases "filtered_matches code_pattern_thumbnail text \<noteq> []")
      case True
      then show ?thesis using thumbnail_codes_Some [OF t] by simp
    next
      case False
      then have "length codes = 1" using thumbnail_codes_Some [OF t] by simp
      then show ?thesis by auto
    qed
  next
    assume "video_codes text = Some codes"
    then show ?thesis by (rule video_codes_Some(2))
  qed
  have video: "video_codes text = Some codes \<longrightarrow> codes = filtered_matches code_pattern_video text"
    using video_codes_Some(1) by blast
  have thumbnail: "thumbnail_codes text = Some codes \<longrightarrow>
       (if filtered_matches code_pattern_thumbnail text \<noteq> []
        then codes = filtered_matches code_pattern_thumbnail text
        else fallback text = Some codes \<and> length codes = 1)"
    using thumbnail_codes_Some by blast
  have occurrences: "\<forall>code_pattern code.
       count_list (filtered_matches code_pattern text) code =
         (if list_ex (\<lambda>url_term. sublist url_term (lower code)) url_terms then 0
          else count_list (findall code_pattern text) code)"
    unfolding filtered_matches_def count_list_filter by simp
  have once: "distinct (add_results [(timestamp, codes, image_file)] [])"
    by (rule distinct_add_results) simp
  have same: "set (add_results [(timestamp, codes, image_file)] []) = set codes"
    by (simp add: set_add_results)
  show ?thesis
    by (intro conjI nonempty video thumbnail occurrences once same)
qed

theorem pass_codes_once_in_found_codes_witness:
  "thumbnail_codes ''attendance code ABCD, ABCD'' = Some [''ABCD'', ''ABCD''] \<and>
   findall code_pattern_thumbnail ''attendance code ABCD, ABCD'' = [''ABCD'', ''ABCD''] \<and>
   filtered_matches code_pattern_thumbnail ''attendance code ABCD, ABCD'' = [''ABCD'', ''ABCD''] \<and>
   count_list [''ABCD'', ''ABCD''] ''ABCD'' = 2 \<and>
   add_results [(''0:05'', [''ABCD'', ''ABCD''], ''thumbnails/thumbnail_0_05.jpg'')] [] = [''ABCD''] \<and>
   thumbnail_codes spelled_slide = Some [''A B C D''] \<and>
   filtered_matches code_pattern_thumbnail spelled_slide = [] \<and>
   fallback spelled_slide = Some [''A B C D''] \<and>
   add_results [(''0:05'', [''A B C D''], ''thumbnails/thumbnail_0_05.jpg'')] [] = [''A B C D'']"
proof -
  have "thumbnail_codes ''attendance code ABCD, ABCD'' = Some [''ABCD'', ''ABCD'']
      \<or> video_codes ''attendance code ABCD, ABCD'' = Some [''ABCD'', ''ABCD'']"
    by (simp add: thumbnail_codes_twice)
  from pass_codes_once_in_found_codes
    [OF this, of "''0:05''" "''thumbnails/thumbnail_0_05.jpg''"]
  have twice: "distinct (add_results
      [(''0:05'', [''ABCD'', ''ABCD''], ''thumbnails/thumbnail_0_05.jpg'')] [])"
    by blast
  have "thumbnail_codes spelled_slide = Some [''A B C D'']
      \<or> video_codes spelled_slide = Some [''A B C D'']"
    by (simp add: spelled_slide_eval)
  from pass_codes_once_in_found_codes
    [OF this, of "''0:05''" "''thumbnails/thumbnail_0_05.jpg''"]
  have spelled: "distinct (add_results
      [(''0:05'', [''A B C D''], ''thumbnails/thumbnail_0_05.jpg'')] [])"
    by blast
  show ?thesis
    using twice spelled
    by (simp add: thumbnail_codes_twice twice_eval spelled_slide_eval
        add_results_Cons add_results_Nil set_add_def)
qed

subsection \<open>The worker pool\<close>

lemma pool_results_append:
  "pool_results E (xs @ ys) = pool_results E xs @ pool_results E ys"
  by (induction xs) (simp_all add: pool_results_def map_filter_simps split: option.splits)

lemma pool_results_Cons:
  "pool_results E (d # ys) =
     (case download_and_process_image E d of None \<Rightarrow> pool_results E ys
      | Some r \<Rightarrow> r # pool_results E ys)"
  unfolding pool_results_def by (simp add: map_filter_simps)

lemma set_pool_results:
  "set (pool_results E ds) = {r. \<exists>d\<in>set ds. download_and_process_image E d = Some r}"
proof (induction ds)
  case Nil
  then show ?case by (simp add: pool_results_def)
next
  case (Cons d ds)
  show ?case
    unfolding pool_results_Cons
    by (cases "download_and_process_image E d") (auto simp: Cons.IH)
qed

lemma found_codes_order_independent:
  assumes "set completed = set completed'"
  shows "set (add_results (pool_results E completed) []) =
         set (add_results (pool_results E completed') [])"
  unfolding set_add_results set_pool_results assms ..

text \<open>
  Claim C8. When the task of one descriptor of a batch fails, that is, an exception is
  raised in it (by the fetch, for example), the exception is caught in the task, which
  gives no outcome for that frame; the pool completes, its results are those of the
  remaining descriptors, none lost and none added, and the set of codes accumulated from
  them holds exactly the codes of the outcomes of the remaining descriptors, each once.
\<close>

theorem failed_task_is_isolated:
  assumes "try_download_and_process_image E (url, timestamp) = Inl e"
  shows "download_and_process_image E (url, timestamp) = None \<and>
    pool_results E (before @ (url, timestamp) # after) =
      pool_results E before @ pool_results E after \<and>
    set (pool_results E (before @ (url, timestamp) # after)) =
      {r. \<exists>d\<in>set (before @ after). download_and_process_image E d = Some r} \<and>
    set (add_results (pool_results E (before @ (url, timestamp) # after)) []) =
      {code. \<exists>d\<in>set (before @ after). \<exists>ts codes file.
               download_and_process_image E d = Some (ts, codes, file) \<and> code \<in> set codes} \<and>
    distinct (add_results (pool_results E (before @ (url, timestamp) # after)) [])"
proof -
  let ?batch = "before @ (url, timestamp) # after"
  have none: "download_and_process_image E (url, timestamp) = None"
    using assms by (rule download_caught)
  have step: "pool_results E ((url, timestamp) # after) = pool_results E after"
    unfolding pool_results_Cons none by simp
  have results: "pool_results E ?batch = pool_results E before @ pool_results E after"
    unfolding pool_results_append step ..
  have rest: "pool_results E ?batch = pool_results E (before @ after)"
    unfolding pool_results_append step ..
  have outcomes: "set (pool_results E ?batch) =
      {r. \<exists>d\<in>set (before @ after). download_and_process_image E d = Some r}"
    unfolding rest by (rule set_pool_results)
  have "set (add_results (pool_results E ?batch) []) =
      (\<Union>r\<in>set (pool_results E ?batch). set (fst (snd r)))"
    by (simp add: set_add_results)
  also have "\<dots> = {code. \<exists>d\<in>set (before @ after). \<exists>ts codes file.
               download_and_process_image E d = Some (ts, codes, file) \<and> code \<in> set codes}"
    unfolding outcomes by force
  finally have codes: "set (add_results (pool_results E ?batch) []) =
      {code. \<exists>d\<in>set (before @ after). \<exists>ts codes file.
               download_and_process_image E d = Some (ts, codes, file) \<and> code \<in> set codes}" .
  have "distinct (add_results (pool_results E ?batch) [])"
    by (rule distinct_add_results) simp
  with none results outcomes codes show ?thesis
    by (intro conjI)
qed

theorem failed_task_is_isolated_witness:
  "fetch thumbnail_env ''missing.jpg'' = Inl FetchError \<and>
   try_download_and_process_image thumbnail_env (''missing.jpg'', ''1:00'') = Inl FetchError \<and>
   download_and_process_image thumbnail_env (''missing.jpg'', ''1:00'') = None \<and>
   pool_results thumbnail_env
     [(''a.jpg'', ''0:05''), (''missing.jpg'', ''1:00''), (''b.jpg'', ''1:05'')] =
     [(''0:05'', [''ABCD EFGH''], ''thumbnails/thumbnail_0_05.jpg''),
      (''1:05'', [''WXYZ''], ''thumbnails/thumbnail_1_05.jpg'')] \<and>
   add_results (pool_results thumbnail_env
     [(''a.jpg'', ''0:05''), (''missing.jpg'', ''1:00''), (''b.jpg'', ''1:05'')]) [] =
     [''ABCD EFGH'', ''WXYZ'']"
proof -
  have raised: "try_download_and_process_image thumbnail_env (''missing.jpg'', ''1:00'') = Inl FetchError"
    by (rule fetch_error_raises [OF thumbnail_env_io(4)])
  have others: "pool_results thumbnail_env [(''a.jpg'', ''0:05'')] =
      [(''0:05'', [''ABCD EFGH''], ''thumbnails/thumbnail_0_05.jpg'')]"
    "pool_results thumbnail_env [(''b.jpg'', ''1:05'')] =
      [(''1:05'', [''WXYZ''], ''thumbnails/thumbnail_1_05.jpg'')]"
    unfolding pool_results_def by (simp_all add: map_filter_simps download_thumbnail_env)
  from failed_task_is_isolated
    [OF raised, of "[(''a.jpg'', ''0:05'')]" "[(''b.jpg'', ''1:05'')]"]
  have "download_and_process_image thumbnail_env (''missing.jpg'', ''1:00'') = None"
    and "pool_results thumbnail_env
     ([(''a.jpg'', ''0:05'')] @ (''missing.jpg'', ''1:00'') # [(''b.jpg'', ''1:05'')]) =
     pool_results thumbnail_env [(''a.jpg'', ''0:05'')] @ pool_results thumbnail_env [(''b.jpg'', ''1:05'')]"
    by blast+
  then show ?thesis
    using raised thumbnail_env_io(4)
    by (simp add: others add_results_Cons add_results_Nil set_add_def)
qed

subsection \<open>The controller\<close>

text \<open>
  Claim C1. With no thumbnail descriptor, a located video element and two navigation
  points of which the second shows ``clicker question ... QRST UVWX'', the call should
  return the codes of the video phase, \<open>QRST UVWX\<close>. The video phase does recognise
  that code, but \<open>found_codes\<close> is assigned only inside the branch for a non-empty
  thumbnail list, so the call ends with \<^verbatim>\<open>UnboundLocalError\<close> instead of a result.
\<close>

theorem zero_thumbnails_unbound_found_codes:
  "video_codes ''clicker question ... QRST UVWX'' = Some [''QRST UVWX''] \<and>
   extract_attendance_codes video_only_env [] =
     ([Locate_player, Seek_and_capture 0, Video_ocr ''0:00'',
       Seek_and_capture 60, Video_ocr ''1:00''], Inl UnboundLocalError)"
proof -
  have "save_all video_only_env names = None" for names
    by (rule save_all_none) (simp add: video_only_env_def)
  then show ?thesis
    by (simp add: video_codes_question video_codes_noise extract_attendance_codes_def
        video_phase_def video_only_env_def)
qed

text \<open>
  The same holds for every environment: without thumbnails, a call that finds the player
  or the video element never returns a list.
\<close>

lemma zero_thumbnails_never_return_codes:
  assumes "player_found E \<or> video_tag_found E"
  shows "snd (extract_attendance_codes E []) \<noteq> Inr codes"
proof -
  obtain log r where scan: "video_scan E (timestamps E) = (log, r)"
    by (cases "video_scan E (timestamps E)")
  show ?thesis
    using assms by (cases r) (auto simp: extract_attendance_codes_def video_phase_def scan)
qed

text \<open>
  Claim C7. Whenever the thumbnail phase has accumulated at least one code, the
  controller returns that non-empty set of codes at once and the video phase is not
  entered: the driver is asked for no player, no seek and no capture, and no frame of the
  video is read.
\<close>

theorem thumbnail_codes_end_extraction:
  assumes "add_results (pool_results E image_urls) [] \<noteq> []"
  shows "extract_attendance_codes E image_urls =
           ([], Inr (add_results (pool_results E image_urls) []))"
proof -
  have "image_urls \<noteq> []"
    using assms by (auto simp: pool_results_def add_results_Nil map_filter_simps)
  then show ?thesis
    using assms by (simp add: extract_attendance_codes_def Let_def)
qed

theorem thumbnail_codes_end_extraction_witness:
  "add_results (pool_results thumbnail_env thumbnail_urls) [] \<noteq> [] \<and>
   extract_attendance_codes thumbnail_env thumbnail_urls = ([], Inr [''ABCD EFGH'', ''WXYZ''])"
proof -
  have found: "add_results (pool_results thumbnail_env thumbnail_urls) [] = [''ABCD EFGH'', ''WXYZ'']"
    by (simp add: pool_results_thumbnail_env add_results_Cons add_results_Nil set_add_def)
  then have "add_results (pool_results thumbnail_env thumbnail_urls) [] \<noteq> []"
    by simp
  from this thumbnail_codes_end_extraction [OF this] show ?thesis
    by (simp add: found)
qed

lemma video_phase_distinct:
  assumes "snd (video_phase E found_codes) = Inr codes"
    and "\<And>found. found_codes = Some found \<Longrightarrow> distinct found"
  shows "distinct codes"
proof (cases "\<not> player_found E \<and> \<not> video_tag_found E")
  case True
  then have "codes = []"
    using assms(1) by (simp add: video_phase_def)
  then show ?thesis by simp
next
  case False
  obtain log r where scan: "video_scan E (timestamps E) = (log, r)"
    by (cases "video_scan E (timestamps E)")
  show ?thesis
  proof (cases r)
    case (Inl e)
    then show ?thesis
      using assms(1) False scan by (simp add: video_phase_def)
  next
    case (Inr video_scan_results)
    show ?thesis
    proof (cases found_codes)
      case None
      then show ?thesis
        using assms(1) False scan Inr by (simp add: video_phase_def)
    next
      case (Some found)
      then have "codes = add_results video_scan_results found"
        using assms(1) False scan Inr by (simp add: video_phase_def)
      then show ?thesis
        using assms(2) [OF Some] by (simp add: distinct_add_results)
    qed
  qed
qed

text \<open>
  Claim C9. In the list that \<^verbatim>\<open>extract_attendance_codes\<close> returns, every code occurs at
  most once, whichever frames and whichever phase produced it.
\<close>

theorem extraction_result_distinct:
  assumes "snd (extract_attendance_codes E image_urls) = Inr codes"
  shows "distinct codes"
proof (cases "image_urls \<noteq> [] \<and> add_results (pool_results E image_urls) [] \<noteq> []")
  case True
  then have "codes = add_results (pool_results E image_urls) []"
    using assms by (simp add: extract_attendance_codes_def Let_def)
  then show ?thesis
    by (simp add: distinct_add_results)
next
  case False
  then have "\<exists>found_codes. snd (video_phase E found_codes) = Inr codes
      \<and> (\<forall>found. found_codes = Some found \<longrightarrow> distinct found)"
    using assms by (cases "image_urls = []") (auto simp: extract_attendance_codes_def Let_def)
  then show ?thesis
    using video_phase_distinct by blast
qed

theorem extraction_result_distinct_witness:
  "snd (extract_attendance_codes repeat_env [(''c.jpg'', ''2:05'')]) = Inr [''QRST UVWX'']
   \<and> distinct [''QRST UVWX'']"
proof -
  have "snd (extract_attendance_codes repeat_env [(''c.jpg'', ''2:05'')]) = Inr [''QRST UVWX'']"
    by (simp add: extract_attendance_codes_def pool_results_repeat_env add_results_Nil
        add_results_Cons video_phase_def video_scan_repeat_env set_add_def)
      (simp add: repeat_env_def)
  from this extraction_result_distinct [OF this] show ?thesis
    by simp
qed

end
